theory Spec2Isabelle
  imports Main "HOL-Library.Log_Nat" "HOL-Library.Multiset"
begin

section \<open>Data model\<close>

text \<open>
  A word of the dataset, and the working copy a quiz component keeps of it
  (\<^verbatim>\<open>initialWords.map(w => ({ ...w, retryCount: 0 }))\<close>). JavaScript strings are
  sequences of code units; a \<^typ>\<open>string\<close> stands for that sequence.
\<close>

record WordEntry =
  word :: string
  meaning :: string
  phonetic :: string
  exampleSentence :: string

record SessionWord = WordEntry +
  retryCount :: nat

text \<open>
  One recorded attempt. The components do not all set \<^verbatim>\<open>hintsUsed\<close> and
  \<^verbatim>\<open>timeout\<close>: a field that is absent reads as \<^verbatim>\<open>undefined\<close>, here \<^const>\<open>None\<close>.
\<close>

record AnswerResult =
  r_word :: string
  r_correct :: bool
  r_userAnswer :: string
  r_hintsUsed :: "nat option"
  r_timeout :: "bool option"

record BasicStats =
  total :: nat
  correct :: nat
  incorrect :: nat
  accuracy :: int

record SessionStats = BasicStats +
  withHints :: nat
  withoutHints :: nat
  correctWithoutHints :: nat
  totalHintsUsed :: nat
  timeoutCount :: nat

section \<open>JavaScript numbers\<close>

text \<open>
  A JavaScript number is an IEEE 754 binary64 value. \<^verbatim>\<open>x / y\<close> and \<^verbatim>\<open>x * y\<close> return the
  double nearest to the exact result, ties to the even significand. The values met
  here lie between \<open>2\<^sup>-\<^sup>3\<^sup>2\<close> and \<open>100\<close>, far from the subnormal and overflow ranges, so the
  exponent is left unbounded. \<open>floor_log2 x\<close> is the binary exponent of a positive
  rational \<open>x\<close>: the \<open>e\<close> with \<open>2\<^sup>e \<le> x < 2\<^sup>e\<^sup>+\<^sup>1\<close>.
\<close>

definition round_half_even :: "rat \<Rightarrow> int" where
  "round_half_even x =
     (let f = \<lfloor>x\<rfloor>; d = x - of_int f
      in if d < 1 / 2 then f else if 1 / 2 < d then f + 1 else if even f then f else f + 1)"

definition floor_log2 :: "rat \<Rightarrow> int" where
  "floor_log2 x =
     (case quotient_of x of (a, b) \<Rightarrow>
        let d = bitlen a - bitlen b in if 2 powi d \<le> x then d else d - 1)"

definition binary64 :: "rat \<Rightarrow> rat" where
  "binary64 x =
     (if x = 0 then 0
      else let u = 2 powi (floor_log2 \<bar>x\<bar> - 52) in of_int (round_half_even (x / u)) * u)"

definition js_div :: "rat \<Rightarrow> rat \<Rightarrow> rat" where
  \<comment> \<open>\<^verbatim>\<open>x / y\<close> for \<open>y \<noteq> 0\<close>; every division of the sources is guarded by \<^verbatim>\<open>y > 0\<close>.\<close>
  "js_div x y = binary64 (x / y)"

definition js_mul :: "rat \<Rightarrow> rat \<Rightarrow> rat" where
  "js_mul x y = binary64 (x * y)"

definition Math_round :: "rat \<Rightarrow> int" where
  \<comment> \<open>\<^verbatim>\<open>Math.round\<close>: the nearest integer, a tie going up.\<close>
  "Math_round x = \<lfloor>x + 1 / 2\<rfloor>"

text \<open>Truthiness of a number that may be \<^verbatim>\<open>undefined\<close>, and \<^verbatim>\<open>x || 0\<close>.\<close>

definition truthy :: "nat option \<Rightarrow> bool" where
  "truthy h = (case h of None \<Rightarrow> False | Some n \<Rightarrow> n \<noteq> 0)"

definition or_zero :: "nat option \<Rightarrow> nat" where
  "or_zero h = (case h of None \<Rightarrow> 0 | Some n \<Rightarrow> n)"

definition positive :: "nat option \<Rightarrow> bool" where
  \<comment> \<open>\<^verbatim>\<open>h > 0\<close>; \<^verbatim>\<open>undefined > 0\<close> is false.\<close>
  "positive h = (case h of None \<Rightarrow> False | Some n \<Rightarrow> 0 < n)"

definition is_zero :: "nat option \<Rightarrow> bool" where
  \<comment> \<open>\<^verbatim>\<open>h === 0\<close>\<close>
  "is_zero h = (h = Some 0)"

section \<open>Word helpers\<close>

subsection \<open>Statistics\<close>

text \<open>
  \<^verbatim>\<open>calculateStats\<close> exists in two copies. The one that knows hints and timeouts:
\<close>

definition calculateStats :: "AnswerResult list \<Rightarrow> SessionStats" where
  "calculateStats results =
     (let total = length results;
          withHints = length (filter (\<lambda>r. truthy (r_hintsUsed r) \<and> positive (r_hintsUsed r)) results);
          timeoutCount = length (filter (\<lambda>r. r_timeout r = Some True) results);
          totalHintsUsed = foldl (\<lambda>sum r. sum + or_zero (r_hintsUsed r)) 0 results;
          correctWithoutHints =
            length (filter (\<lambda>r. r_correct r \<and> (\<not> truthy (r_hintsUsed r) \<or> is_zero (r_hintsUsed r))) results);
          allCorrect = length (filter (\<lambda>r. r_correct r) results);
          withoutHints =
            length (filter (\<lambda>r. \<not> truthy (r_hintsUsed r) \<or> is_zero (r_hintsUsed r)) results);
          accuracy =
            (if withoutHints > 0
             then Math_round (js_mul (js_div (of_nat correctWithoutHints) (of_nat withoutHints)) 100)
             else 0)
      in \<lparr> total = total, correct = allCorrect, incorrect = total - allCorrect,
           accuracy = accuracy, withHints = withHints, withoutHints = withoutHints,
           correctWithoutHints = correctWithoutHints, totalHintsUsed = totalHintsUsed,
           timeoutCount = timeoutCount \<rparr>)"

text \<open>The copy in \<^verbatim>\<open>src/utils/wordHelpers.js\<close>, which only counts right and wrong:\<close>

definition calculateStats_basic :: "AnswerResult list \<Rightarrow> BasicStats" where
  "calculateStats_basic results =
     (let total = length results;
          correct = length (filter (\<lambda>r. r_correct r) results);
          accuracy =
            (if total > 0 then Math_round (js_mul (js_div (of_nat correct) (of_nat total)) 100)
             else 0)
      in \<lparr> total = total, correct = correct, incorrect = total - correct,
           accuracy = accuracy \<rparr>)"

text \<open>
  What the specification states for the accuracy, in exact arithmetic: the hint-free
  results, and the rounded percentage of the correct ones among them.
\<close>

definition hint_free :: "AnswerResult list \<Rightarrow> AnswerResult list" where
  "hint_free results = filter (\<lambda>r. or_zero (r_hintsUsed r) = 0) results"

definition stated_accuracy :: "AnswerResult list \<Rightarrow> int" where
  "stated_accuracy results =
     (let withoutHintsCount = length (hint_free results);
          correctWithoutHints = length (filter (\<lambda>r. r_correct r) (hint_free results))
      in if withoutHintsCount = 0 then 0
         else Math_round (100 * of_nat correctWithoutHints / of_nat withoutHintsCount))"

subsection \<open>Answers\<close>

text \<open>
  \<^verbatim>\<open>String.prototype.trim\<close> and \<^verbatim>\<open>toLowerCase\<close> belong to the platform; the helpers
  take them as a parameter.
\<close>

record js_strings =
  trim :: "string \<Rightarrow> string"
  toLowerCase :: "string \<Rightarrow> string"

definition checkAnswer :: "js_strings \<Rightarrow> string \<Rightarrow> string \<Rightarrow> bool" where
  "checkAnswer P userAnswer correctWord =
     (toLowerCase P (trim P userAnswer) = toLowerCase P (trim P correctWord))"

subsection \<open>Letter puzzles\<close>

definition generateLetterPuzzle :: "string \<Rightarrow> string" where
  "generateLetterPuzzle w =
     (if length w \<le> 3 then
        let hiddenIndex = length w div 2
        in map (\<lambda>(index, char). if index = hiddenIndex then CHR ''_'' else char) (enumerate 0 w)
      else if length w \<le> 6 then
        map (\<lambda>(index, char). if index mod 2 = 1 then CHR ''_'' else char) (enumerate 0 w)
      else
        map (\<lambda>(index, char). if index mod 3 = 1 \<or> index mod 5 = 2 then CHR ''_'' else char)
          (enumerate 0 w))"

text \<open>
  \<^verbatim>\<open>getHint\<close> draws \<^verbatim>\<open>Math.floor(Math.random() * hiddenIndices.length)\<close>, a position in
  \<open>hiddenIndices\<close>; \<open>pick\<close> stands for the value drawn. A draw outside the list would
  read \<^verbatim>\<open>undefined\<close> and leave the array as it is. Where the word is shorter than the
  puzzle, \<^verbatim>\<open>correctWord[randomIndex]\<close> is \<^verbatim>\<open>undefined\<close>, which \<^verbatim>\<open>join\<close> renders as nothing.
\<close>

definition getHint :: "nat \<Rightarrow> string \<Rightarrow> string \<Rightarrow> string" where
  "getHint pick currentPuzzle correctWord =
     (let hiddenIndices =
            filter (\<lambda>index. currentPuzzle ! index = CHR ''_'') [0..<length currentPuzzle]
      in if length hiddenIndices = 0 then currentPuzzle
         else if length hiddenIndices \<le> pick then currentPuzzle
         else let randomIndex = hiddenIndices ! pick
              in if randomIndex < length correctWord
                 then currentPuzzle[randomIndex := correctWord ! randomIndex]
                 else take randomIndex currentPuzzle @ drop (Suc randomIndex) currentPuzzle)"

text \<open>The masking policy as the specification words it, by length \<open>n\<close> and index \<open>i\<close>.\<close>

definition mask_policy :: "nat \<Rightarrow> nat \<Rightarrow> bool" where
  "mask_policy n i =
     (if n \<le> 3 then i = n div 2 else if n \<le> 6 then odd i else i mod 3 = 1 \<or> i mod 5 = 2)"

definition masked_count :: "string \<Rightarrow> nat" where
  "masked_count p = length (filter (\<lambda>c. c = CHR ''_'') p)"

text \<open>Asking for one hint after the other, with the draws \<open>ks\<close>.\<close>

fun hints :: "nat list \<Rightarrow> string \<Rightarrow> string \<Rightarrow> string" where
  "hints [] p w = p"
| "hints (k # ks) p w = hints ks (getHint k p w) w"

definition agrees :: "string \<Rightarrow> string \<Rightarrow> bool" where
  "agrees p w = (length p = length w \<and> (\<forall>i<length p. p ! i = CHR ''_'' \<or> p ! i = w ! i))"

subsection \<open>Shuffling and wrong options\<close>

text \<open>
  The loop of \<^verbatim>\<open>shuffleArray\<close> runs \<open>i\<close> from the last index down to 1 and swaps
  positions \<open>i\<close> and \<^verbatim>\<open>j = Math.floor(Math.random() * (i + 1))\<close>. \<open>rnd i\<close> stands for
  the \<open>j\<close> drawn at \<open>i\<close>; \<^verbatim>\<open>Math.random()\<close> is below 1, so \<open>rnd i \<le> i\<close>.
\<close>

fun shuffle_from :: "(nat \<Rightarrow> nat) \<Rightarrow> nat \<Rightarrow> 'a list \<Rightarrow> 'a list" where
  "shuffle_from rnd 0 shuffled = shuffled"
| "shuffle_from rnd (Suc k) shuffled =
     (let i = Suc k; j = rnd i
      in shuffle_from rnd k (shuffled[i := shuffled ! j, j := shuffled ! i]))"

definition shuffleArray :: "(nat \<Rightarrow> nat) \<Rightarrow> 'a list \<Rightarrow> 'a list" where
  "shuffleArray rnd array = shuffle_from rnd (length array - 1) array"

definition generateWrongOptions ::
  "(nat \<Rightarrow> nat) \<Rightarrow> 'a WordEntry_scheme list \<Rightarrow> string \<Rightarrow> nat \<Rightarrow> string list" where
  "generateWrongOptions rnd allWords correctWord cnt =
     (let wrongOptions = map (\<lambda>w. word w) (filter (\<lambda>w. word w \<noteq> correctWord) allWords)
      in take cnt (shuffleArray rnd wrongOptions))"

definition selectRandomWords :: "(nat \<Rightarrow> nat) \<Rightarrow> 'a list \<Rightarrow> nat \<Rightarrow> 'a list" where
  "selectRandomWords rnd ws cnt = take cnt (shuffleArray rnd ws)"

section \<open>History store\<close>

text \<open>
  \<^verbatim>\<open>localStorage\<close> keeps strings under string keys; a browser that denies storage
  throws on every access. \<^verbatim>\<open>JSON.parse\<close> is a parameter: \<open>None\<close> is a thrown
  \<^verbatim>\<open>SyntaxError\<close>. Every function returns what it wrote to the console beside its
  result.
\<close>

datatype json =
  JNull | JBool bool | JNumber rat | JString string | JArray "json list"
  | JObject "(string \<times> json) list"

datatype js_error = SecurityError | SyntaxError

record localStorage =
  denied :: bool
  items :: "string \<Rightarrow> string option"

definition HISTORY_KEY :: string where
  "HISTORY_KEY = ''vocabulary_learning_history''"

definition getItem :: "localStorage \<Rightarrow> string \<Rightarrow> js_error + string option" where
  "getItem ls k = (if denied ls then Inl SecurityError else Inr (items ls k))"

definition removeItem :: "localStorage \<Rightarrow> string \<Rightarrow> js_error + localStorage" where
  "removeItem ls k =
     (if denied ls then Inl SecurityError else Inr (ls\<lparr>items := (items ls)(k := None)\<rparr>))"

definition getHistory :: "(string \<Rightarrow> json option) \<Rightarrow> localStorage \<Rightarrow> json \<times> string list" where
  "getHistory parse ls =
     (case getItem ls HISTORY_KEY of
        Inl error \<Rightarrow> (JArray [], [''Error reading history:''])
      | Inr history \<Rightarrow>
          (case history of
             None \<Rightarrow> (JArray [], [])
           | Some h \<Rightarrow>
               if h = [] then (JArray [], [])
               else (case parse h of
                       None \<Rightarrow> (JArray [], [''Error reading history:''])
                     | Some v \<Rightarrow> (v, []))))"

definition clearHistory :: "localStorage \<Rightarrow> localStorage \<times> string list" where
  "clearHistory ls =
     (case removeItem ls HISTORY_KEY of
        Inl error \<Rightarrow> (ls, [''Error clearing history:''])
      | Inr ls' \<Rightarrow> (ls', []))"

section \<open>Quiz components\<close>

text \<open>
  \<^verbatim>\<open>ListenSpell\<close>, \<^verbatim>\<open>FillBlank\<close> and \<^verbatim>\<open>LetterPuzzle\<close> hold the same React state, and each
  adds its own. A handler reads the state of the render it was created in and requests
  updates; the updates show in the next render. So a handler is a function from the state
  it read to the state after its updates, together with the argument it passed to
  \<^verbatim>\<open>onComplete\<close>, if it called it. The application always passes \<^verbatim>\<open>onComplete\<close>.
  \<open>userInput\<close> is called \<^verbatim>\<open>selectedAnswer\<close> in \<^verbatim>\<open>FillBlank\<close>; \<^verbatim>\<open>null\<close> is \<^const>\<open>None\<close>.
\<close>

record session =
  words :: "SessionWord list"
  currentIndex :: nat
  userInput :: string
  showAnswer :: bool
  isCorrect :: "bool option"
  results :: "AnswerResult list"

record ListenSpell = session +
  elapsedTime :: nat
  isTimeout :: bool

record LetterPuzzle = session +
  puzzle :: string
  hintsUsed :: nat

definition withRetryCount :: "WordEntry \<Rightarrow> SessionWord" where
  \<comment> \<open>\<^verbatim>\<open>{ ...w, retryCount: 0 }\<close>\<close>
  "withRetryCount w =
     \<lparr> word = word w, meaning = meaning w, phonetic = phonetic w,
       exampleSentence = exampleSentence w, retryCount = 0 \<rparr>"

text \<open>
  \<^verbatim>\<open>handleNext\<close> is the same in the three components. It reads \<^verbatim>\<open>currentWord\<close>, which
  exists whenever the component shows anything but its loading notice, that is when
  \<open>currentIndex s < length (words s)\<close>. \<^verbatim>\<open>splice(insertPosition, 0, x)\<close> puts \<open>x\<close> in front of
  the element at \<open>insertPosition\<close>. The comparison with \<^verbatim>\<open>words.length - 1\<close> reads the state
  of the render, not \<open>updatedWords\<close>.
\<close>

definition handleNext ::
  "'a session_scheme \<Rightarrow> 'a session_scheme \<times> AnswerResult list option" where
  "handleNext s =
     (let currentWord = words s ! currentIndex s;
          s1 = (if isCorrect s \<noteq> Some True \<and> retryCount currentWord = 0 then
                  let insertPosition = min (currentIndex s + 3) (length (words s));
                      updatedWords = take insertPosition (words s)
                        @ [currentWord\<lparr>retryCount := 1\<rparr>] @ drop insertPosition (words s)
                  in s\<lparr>words := updatedWords\<rparr>
                else s)
      in if currentIndex s < length (words s) - 1
         then (s1\<lparr>currentIndex := currentIndex s + 1, userInput := [], showAnswer := False,
                  isCorrect := None\<rparr>, None)
         else (s1, Some (results s)))"

text \<open>What the user and the timer can do to a component.\<close>

datatype event = Input string | Submit | Skip | Next | Tick | Hint nat

subsection \<open>ListenSpell\<close>

definition ListenSpell_init :: "WordEntry list \<Rightarrow> ListenSpell" where
  "ListenSpell_init initialWords =
     \<lparr> words = map withRetryCount initialWords, currentIndex = 0, userInput = [],
       showAnswer = False, isCorrect = None, results = [], elapsedTime = 0,
       isTimeout = False \<rparr>"

definition ListenSpell_handleSubmit :: "js_strings \<Rightarrow> ListenSpell \<Rightarrow> ListenSpell" where
  "ListenSpell_handleSubmit P s =
     (if trim P (userInput s) = [] then s
      else let currentWord = words s ! currentIndex s;
               correct = checkAnswer P (userInput s) (word currentWord)
           in s\<lparr>isCorrect := Some correct, showAnswer := True,
                results := results s @
                  [\<lparr> r_word = word currentWord, r_correct = correct,
                     r_userAnswer = userInput s, r_hintsUsed = Some 0,
                     r_timeout = Some (isTimeout s) \<rparr>]\<rparr>)"

definition ListenSpell_handleSkip ::
  "ListenSpell \<Rightarrow> ListenSpell \<times> AnswerResult list option" where
  "ListenSpell_handleSkip s =
     (let currentWord = words s ! currentIndex s;
          skipped = \<lparr> r_word = word currentWord, r_correct = False,
                      r_userAnswer = (if userInput s = [] then ''(skipped)'' else userInput s),
                      r_hintsUsed = Some 0, r_timeout = Some (isTimeout s) \<rparr>;
          (s', completed) = handleNext s
      in (s'\<lparr>results := results s @ [skipped]\<rparr>, completed))"

definition TIMEOUT_SECONDS :: nat where
  "TIMEOUT_SECONDS = 30"

definition ListenSpell_tick :: "ListenSpell \<Rightarrow> ListenSpell" where
  \<comment> \<open>one run of the interval callback\<close>
  "ListenSpell_tick s =
     (let newTime = elapsedTime s + 1
      in s\<lparr>elapsedTime := newTime,
           isTimeout := (if newTime \<ge> TIMEOUT_SECONDS then True else isTimeout s)\<rparr>)"

definition ListenSpell_timer_effect :: "ListenSpell \<Rightarrow> ListenSpell \<Rightarrow> ListenSpell" where
  \<comment> \<open>the effect on \<^verbatim>\<open>[currentIndex, showAnswer]\<close>, run after a render that changed one of them\<close>
  "ListenSpell_timer_effect old new =
     (if (currentIndex new \<noteq> currentIndex old \<or> showAnswer new \<noteq> showAnswer old)
         \<and> \<not> showAnswer new \<and> currentIndex new < length (words new)
      then new\<lparr>elapsedTime := 0, isTimeout := False\<rparr>
      else new)"

text \<open>
  The form with the input, \<^verbatim>\<open>Submit\<close> and \<^verbatim>\<open>Skip\<close> is rendered while \<open>showAnswer\<close> is false,
  the \<^verbatim>\<open>Next\<close> button while it is true, and the timer runs while it is false.
\<close>

fun ListenSpell_step ::
  "js_strings \<Rightarrow> event \<Rightarrow> ListenSpell \<Rightarrow> ListenSpell \<times> AnswerResult list option" where
  "ListenSpell_step P e s =
     (if \<not> currentIndex s < length (words s) then (s, None)
      else case e of
        Input t \<Rightarrow> (if showAnswer s then (s, None) else (s\<lparr>userInput := t\<rparr>, None))
      | Submit \<Rightarrow>
          (if showAnswer s then (s, None)
           else (ListenSpell_timer_effect s (ListenSpell_handleSubmit P s), None))
      | Skip \<Rightarrow>
          (if showAnswer s then (s, None)
           else let (s', completed) = ListenSpell_handleSkip s
                in (ListenSpell_timer_effect s s', completed))
      | Next \<Rightarrow>
          (if showAnswer s
           then let (s', completed) = handleNext s in (ListenSpell_timer_effect s s', completed)
           else (s, None))
      | Tick \<Rightarrow> (if showAnswer s then (s, None) else (ListenSpell_tick s, None))
      | Hint k \<Rightarrow> (s, None))"

subsection \<open>FillBlank\<close>

text \<open>
  The options on offer are derived from \<open>words\<close> and the current word by an effect; the
  model lets the user select any string, which covers every option there can be.
\<close>

definition FillBlank_init :: "WordEntry list \<Rightarrow> session" where
  "FillBlank_init initialWords =
     \<lparr> words = map withRetryCount initialWords, currentIndex = 0, userInput = [],
       showAnswer = False, isCorrect = None, results = [] \<rparr>"

definition FillBlank_handleSelectOption :: "string \<Rightarrow> session \<Rightarrow> session" where
  "FillBlank_handleSelectOption option s = (if showAnswer s then s else s\<lparr>userInput := option\<rparr>)"

definition FillBlank_handleSubmit :: "js_strings \<Rightarrow> session \<Rightarrow> session" where
  "FillBlank_handleSubmit P s =
     (if userInput s = [] then s
      else let currentWord = words s ! currentIndex s;
               correct = checkAnswer P (userInput s) (word currentWord)
           in s\<lparr>isCorrect := Some correct, showAnswer := True,
                results := results s @
                  [\<lparr> r_word = word currentWord, r_correct = correct,
                     r_userAnswer = userInput s, r_hintsUsed = None, r_timeout = None \<rparr>]\<rparr>)"

definition FillBlank_handleSkip :: "session \<Rightarrow> session \<times> AnswerResult list option" where
  "FillBlank_handleSkip s =
     (let currentWord = words s ! currentIndex s;
          skipped = \<lparr> r_word = word currentWord, r_correct = False,
                      r_userAnswer = ''(skipped)'', r_hintsUsed = None, r_timeout = None \<rparr>;
          (s', completed) = handleNext s
      in (s'\<lparr>results := results s @ [skipped]\<rparr>, completed))"

fun FillBlank_step ::
  "js_strings \<Rightarrow> event \<Rightarrow> session \<Rightarrow> session \<times> AnswerResult list option" where
  "FillBlank_step P e s =
     (if \<not> currentIndex s < length (words s) then (s, None)
      else case e of
        Input t \<Rightarrow> (if showAnswer s then (s, None) else (FillBlank_handleSelectOption t s, None))
      | Submit \<Rightarrow> (if showAnswer s then (s, None) else (FillBlank_handleSubmit P s, None))
      | Skip \<Rightarrow> (if showAnswer s then (s, None) else FillBlank_handleSkip s)
      | Next \<Rightarrow> (if showAnswer s then handleNext s else (s, None))
      | Tick \<Rightarrow> (s, None)
      | Hint k \<Rightarrow> (s, None))"

subsection \<open>LetterPuzzle\<close>

definition LetterPuzzle_puzzle_effect :: "LetterPuzzle \<Rightarrow> LetterPuzzle" where
  \<comment> \<open>the effect on \<^verbatim>\<open>[currentIndex]\<close>\<close>
  "LetterPuzzle_puzzle_effect s =
     (if currentIndex s < length (words s)
      then s\<lparr>puzzle := generateLetterPuzzle (word (words s ! currentIndex s)), hintsUsed := 0\<rparr>
      else s)"

definition LetterPuzzle_init :: "WordEntry list \<Rightarrow> LetterPuzzle" where
  "LetterPuzzle_init initialWords =
     LetterPuzzle_puzzle_effect
       \<lparr> words = map withRetryCount initialWords, currentIndex = 0, userInput = [],
         showAnswer = False, isCorrect = None, results = [], puzzle = [], hintsUsed = 0 \<rparr>"

definition LetterPuzzle_handleHint :: "nat \<Rightarrow> LetterPuzzle \<Rightarrow> LetterPuzzle" where
  "LetterPuzzle_handleHint pick s =
     (let newPuzzle = getHint pick (puzzle s) (word (words s ! currentIndex s))
      in s\<lparr>puzzle := newPuzzle, hintsUsed := hintsUsed s + 1\<rparr>)"

definition LetterPuzzle_handleSubmit :: "js_strings \<Rightarrow> LetterPuzzle \<Rightarrow> LetterPuzzle" where
  "LetterPuzzle_handleSubmit P s =
     (if trim P (userInput s) = [] then s
      else let currentWord = words s ! currentIndex s;
               correct = checkAnswer P (userInput s) (word currentWord)
           in s\<lparr>isCorrect := Some correct, showAnswer := True,
                results := results s @
                  [\<lparr> r_word = word currentWord, r_correct = correct,
                     r_userAnswer = userInput s, r_hintsUsed = Some (hintsUsed s),
                     r_timeout = None \<rparr>]\<rparr>)"

definition LetterPuzzle_handleSkip ::
  "LetterPuzzle \<Rightarrow> LetterPuzzle \<times> AnswerResult list option" where
  "LetterPuzzle_handleSkip s =
     (let currentWord = words s ! currentIndex s;
          skipped = \<lparr> r_word = word currentWord, r_correct = False,
                      r_userAnswer = (if userInput s = [] then ''(skipped)'' else userInput s),
                      r_hintsUsed = Some (hintsUsed s), r_timeout = None \<rparr>;
          (s', completed) = handleNext s
      in (s'\<lparr>results := results s @ [skipped]\<rparr>, completed))"

definition LetterPuzzle_after :: "LetterPuzzle \<Rightarrow> LetterPuzzle \<Rightarrow> LetterPuzzle" where
  "LetterPuzzle_after old new =
     (if currentIndex new \<noteq> currentIndex old then LetterPuzzle_puzzle_effect new else new)"

fun LetterPuzzle_step ::
  "js_strings \<Rightarrow> event \<Rightarrow> LetterPuzzle \<Rightarrow> LetterPuzzle \<times> AnswerResult list option" where
  "LetterPuzzle_step P e s =
     (if \<not> currentIndex s < length (words s) then (s, None)
      else case e of
        Input t \<Rightarrow> (if showAnswer s then (s, None) else (s\<lparr>userInput := t\<rparr>, None))
      | Submit \<Rightarrow> (if showAnswer s then (s, None) else (LetterPuzzle_handleSubmit P s, None))
      | Skip \<Rightarrow>
          (if showAnswer s then (s, None)
           else let (s', completed) = LetterPuzzle_handleSkip s
                in (LetterPuzzle_after s s', completed))
      | Next \<Rightarrow>
          (if showAnswer s
           then let (s', completed) = handleNext s in (LetterPuzzle_after s s', completed)
           else (s, None))
      | Tick \<Rightarrow> (s, None)
      | Hint k \<Rightarrow>
          (if CHR ''_'' \<in> set (puzzle s) \<and> \<not> showAnswer s
           then (LetterPuzzle_handleHint k s, None) else (s, None)))"

subsection \<open>A session\<close>

text \<open>
  A session is the component's life from its first render: the events arrive one by one,
  and the call of \<^verbatim>\<open>onComplete\<close> ends it, for the application then shows the results
  and removes the component.
\<close>

fun run ::
  "(event \<Rightarrow> 's \<Rightarrow> 's \<times> AnswerResult list option) \<Rightarrow> event list \<Rightarrow> 's
     \<Rightarrow> 's \<times> AnswerResult list option" where
  "run step [] s = (s, None)"
| "run step (e # es) s =
     (case step e s of
        (s', None) \<Rightarrow> run step es s'
      | (s', Some rs) \<Rightarrow> (s', Some rs))"

text \<open>
  The retry policy as an invariant of the working sequence: the entries that came with
  the session are still there in their order, every other entry is a copy with
  \<open>retryCount = 1\<close>, and no word has more copies than it has entries the session has
  advanced away from (\<open>passed\<close> of them).
\<close>

definition retry_inv :: "WordEntry list \<Rightarrow> nat \<Rightarrow> 'a session_scheme \<Rightarrow> bool" where
  "retry_inv initialWords passed s =
     (currentIndex s < length (words s)
      \<and> passed \<le> length (words s)
      \<and> filter (\<lambda>e. retryCount e = 0) (words s) = map withRetryCount initialWords
      \<and> (\<forall>e\<in>set (words s). retryCount e \<le> 1)
      \<and> (\<forall>x. length (filter (\<lambda>e. word e = x \<and> retryCount e = 1) (words s))
               \<le> length (filter (\<lambda>e. word e = x \<and> retryCount e = 0) (take passed (words s)))))"

definition passed :: "'a session_scheme \<Rightarrow> AnswerResult list option \<Rightarrow> nat" where
  "passed s completed =
     (case completed of None \<Rightarrow> currentIndex s | Some rs \<Rightarrow> Suc (currentIndex s))"

text \<open>
  Every handler of the three components leaves \<open>words\<close> and \<open>currentIndex\<close> alone or
  changes them as \<open>handleNext\<close> does.
\<close>

definition moves_like_handleNext ::
  "'a session_scheme \<Rightarrow> 'a session_scheme \<Rightarrow> AnswerResult list option \<Rightarrow> bool" where
  "moves_like_handleNext s s' completed =
     ((words s' = words s \<and> currentIndex s' = currentIndex s \<and> completed = None)
      \<or> (words s' = words (fst (handleNext s))
          \<and> currentIndex s' = currentIndex (fst (handleNext s))
          \<and> completed = snd (handleNext s)))"

text \<open>
  Each word is retried at most once: beside the entries of the session's list, the
  working sequence holds only copies with \<open>retryCount = 1\<close>, and of no word more copies
  than the list has entries of it.
\<close>

definition retried_at_most_once :: "WordEntry list \<Rightarrow> SessionWord list \<Rightarrow> bool" where
  "retried_at_most_once initialWords ws =
     (filter (\<lambda>e. retryCount e = 0) ws = map withRetryCount initialWords
      \<and> (\<forall>e\<in>set ws. retryCount e \<le> 1)
      \<and> (\<forall>x. length (filter (\<lambda>e. word e = x \<and> retryCount e = 1) ws)
               \<le> length (filter (\<lambda>w. word w = x) initialWords)))"

text \<open>
  The working sequence when a copy of the current word with \<open>retryCount = 1\<close> has been
  put in at index \<open>min (currentIndex + 3) (length words)\<close>.
\<close>

definition retry_inserted :: "'a session_scheme \<Rightarrow> SessionWord list" where
  "retry_inserted s =
     take (min (currentIndex s + 3) (length (words s))) (words s)
     @ [(words s ! currentIndex s)\<lparr>retryCount := 1\<rparr>]
     @ drop (min (currentIndex s + 3) (length (words s))) (words s)"

text \<open>
  The word in the last position of the working sequence, on its first attempt, and not
  answered correctly.
\<close>

definition final_first_miss :: "'a session_scheme \<Rightarrow> bool" where
  "final_first_miss s =
     (words s \<noteq> [] \<and> currentIndex s = length (words s) - 1
      \<and> retryCount (words s ! currentIndex s) = 0 \<and> isCorrect s \<noteq> Some True)"

subsection \<open>Example data\<close>

text \<open>String methods for ASCII text, and four words, for the examples below.\<close>

definition ascii_space :: "char \<Rightarrow> bool" where
  "ascii_space c = (c \<in> set [CHR '' '', CHR 0x09, CHR 0x0A, CHR 0x0B, CHR 0x0C, CHR 0x0D])"

definition ascii_lower :: "char \<Rightarrow> char" where
  "ascii_lower c =
     (let n = (of_char c :: nat) in if 65 \<le> n \<and> n \<le> 90 then char_of (n + 32) else c)"

definition ascii_strings :: js_strings where
  "ascii_strings =
     \<lparr> trim = (\<lambda>s. rev (dropWhile ascii_space (rev (dropWhile ascii_space s)))),
       toLowerCase = map ascii_lower \<rparr>"

definition entry :: "string \<Rightarrow> WordEntry" where
  "entry w = \<lparr> word = w, meaning = [], phonetic = [], exampleSentence = [] \<rparr>"

definition four_words :: "WordEntry list" where
  "four_words = [entry ''apple'', entry ''bread'', entry ''cat'', entry ''door'']"

definition answered :: "bool \<Rightarrow> AnswerResult" where
  "answered ok =
     \<lparr> r_word = ''cat'', r_correct = ok, r_userAnswer = (if ok then ''cat'' else ''cot''),
       r_hintsUsed = Some 0, r_timeout = Some False \<rparr>"

definition assisted :: "bool \<Rightarrow> AnswerResult" where
  "assisted ok =
     \<lparr> r_word = ''cat'', r_correct = ok, r_userAnswer = (if ok then ''cat'' else ''cot''),
       r_hintsUsed = Some 2, r_timeout = None \<rparr>"

definition forty_results :: "AnswerResult list" where
  "forty_results = replicate 23 (answered True) @ replicate 17 (answered False)"

section \<open>Speech service\<close>

text \<open>
  The hook \<^verbatim>\<open>useSpeech\<close> (the copy with dictionary audio). JavaScript runs one callback
  at a time, so the service is a state and the callbacks that change it: the call of
  \<^verbatim>\<open>speak\<close>, and the events of the audio element, of the 3000 ms timers and of the
  utterance.

  Every call of \<^verbatim>\<open>playDictionaryAudio\<close> on an audio element creates a promise and a timer
  of its own; \<open>calls\<close> lists them in the order of the calls, each with the arguments of
  the \<^verbatim>\<open>speak\<close> call that awaits the promise. A promise settles once: later calls of
  \<^verbatim>\<open>resolve\<close> and \<^verbatim>\<open>reject\<close> do nothing. The element has one \<^verbatim>\<open>oncanplaythrough\<close> and one
  \<^verbatim>\<open>onerror\<close>, which each call overwrites, so the element's events reach the last call
  only, and only the last call's timer can still be cleared; the timer of an earlier
  call fires and rejects that call's promise.

  \<open>audioSrc\<close> is the word whose dictionary audio the element was told to load, \<open>spoken\<close>
  the utterances handed to \<^verbatim>\<open>speechSynthesis.speak\<close> as text, language and rate (pitch
  and volume are fixed, the choice of a voice is left out), and \<open>console\<close> what was logged.
  \<^verbatim>\<open>pause()\<close> of the element and \<^verbatim>\<open>speechSynthesis.cancel()\<close> change none of these fields.
  No event changes the preference or the support flag, so the \<^verbatim>\<open>catch\<close> of a call reads
  the values that the call closed over. The can-play event carries whether the
  \<^verbatim>\<open>play()\<close> it starts is fulfilled; the browser's message of a rejected \<^verbatim>\<open>play()\<close> is
  not modelled and stands as \<open>''play() failed''\<close>.
\<close>

datatype audioSource = hybrid | dictionary | webspeech

record dictionary_call =
  request :: "string \<times> string \<times> rat"
  settled :: bool
  timerArmed :: bool

record useSpeech =
  isSpeaking :: bool
  isSupported :: bool
  audioSource :: audioSource
  audioElement :: bool
  audioSrc :: "string option"
  calls :: "dictionary_call list"
  spoken :: "(string \<times> string \<times> rat) list"
  console :: "string list"

datatype speech_event =
    CanPlayThrough bool  \<comment> \<open>the audio can play; whether \<^verbatim>\<open>play()\<close> is then fulfilled\<close>
  | AudioError
  | AudioEnded
  | TimerFired nat  \<comment> \<open>3000 ms have passed since the call of that number\<close>
  | UtteranceStart
  | UtteranceEnd
  | UtteranceError

definition is_letter :: "char \<Rightarrow> bool" where
  "is_letter c = (let n = (of_char c :: nat) in (65 \<le> n \<and> n \<le> 90) \<or> (97 \<le> n \<and> n \<le> 122))"

definition isSingleWord :: "string \<Rightarrow> bool" where
  \<comment> \<open>\<^verbatim>\<open>/^[a-zA-Z]+$/.test\<close>\<close>
  "isSingleWord t = (t \<noteq> [] \<and> list_all is_letter t)"

definition stop :: "useSpeech \<Rightarrow> useSpeech" where
  "stop s = s\<lparr>isSpeaking := False\<rparr>"

definition speakWithWebSpeech :: "useSpeech \<Rightarrow> string \<Rightarrow> string \<Rightarrow> rat \<Rightarrow> useSpeech" where
  "speakWithWebSpeech s text lang rate =
     (if \<not> isSupported s
      then s\<lparr>console := console s @ [''Speech synthesis is not supported in this browser'']\<rparr>
      else s\<lparr>spoken := spoken s @ [(text, lang, rate)]\<rparr>)"

definition caught :: "useSpeech \<Rightarrow> string \<times> string \<times> rat \<Rightarrow> string \<Rightarrow> useSpeech" where
  \<comment> \<open>the \<^verbatim>\<open>catch\<close> of a \<^verbatim>\<open>speak\<close> call with these arguments, and what follows it\<close>
  "caught s req message =
     (let s1 = s\<lparr>console := console s
                  @ [''Dictionary audio failed, falling back to Web Speech API: '' @ message]\<rparr>
      in if audioSource s \<noteq> dictionary
         then (case req of (text, lang, rate) \<Rightarrow> speakWithWebSpeech s1 text lang rate)
         else s1)"

definition settle :: "useSpeech \<Rightarrow> nat \<Rightarrow> useSpeech" where
  "settle s k = s\<lparr>calls := (calls s)[k := (calls s ! k)\<lparr>settled := True\<rparr>]\<rparr>"

definition reject :: "useSpeech \<Rightarrow> nat \<Rightarrow> string \<Rightarrow> useSpeech" where
  \<comment> \<open>\<^verbatim>\<open>reject(new Error(message))\<close> of call \<open>k\<close>\<close>
  "reject s k message =
     (if k < length (calls s) \<and> \<not> settled (calls s ! k)
      then caught (settle s k) (request (calls s ! k)) message
      else s)"

definition resolve :: "useSpeech \<Rightarrow> nat \<Rightarrow> useSpeech" where
  \<comment> \<open>\<^verbatim>\<open>resolve()\<close> of call \<open>k\<close>: the awaiting \<^verbatim>\<open>speak\<close> call returns\<close>
  "resolve s k = (if k < length (calls s) \<and> \<not> settled (calls s ! k) then settle s k else s)"

definition clearTimeout :: "useSpeech \<Rightarrow> nat \<Rightarrow> useSpeech" where
  "clearTimeout s k =
     (if k < length (calls s)
      then s\<lparr>calls := (calls s)[k := (calls s ! k)\<lparr>timerArmed := False\<rparr>]\<rparr>
      else s)"

definition playDictionaryAudio ::
  "useSpeech \<Rightarrow> string \<times> string \<times> rat \<Rightarrow> string \<Rightarrow> useSpeech" where
  \<comment> \<open>called with the word \<open>w\<close> from the \<^verbatim>\<open>speak\<close> call with the arguments \<open>req\<close>\<close>
  "playDictionaryAudio s req w =
     (if \<not> audioElement s then caught s req ''Audio element not initialized''
      else s\<lparr>audioSrc := Some w,
             calls := calls s @ [\<lparr> request = req, settled = False, timerArmed = True \<rparr>]\<rparr>)"

definition speak :: "js_strings \<Rightarrow> useSpeech \<Rightarrow> string \<Rightarrow> string \<Rightarrow> rat \<Rightarrow> useSpeech" where
  "speak P s text lang rate =
     (let s1 = stop s;
          isSingle = isSingleWord (trim P text)
      in if audioSource s \<noteq> webspeech \<and> isSingle
         then playDictionaryAudio s1 (text, lang, rate) (trim P text)
         else if audioSource s \<noteq> dictionary then speakWithWebSpeech s1 text lang rate
         else s1)"

fun on_event :: "speech_event \<Rightarrow> useSpeech \<Rightarrow> useSpeech" where
  "on_event (CanPlayThrough played) s =
     (if calls s = [] then s
      else let k = length (calls s) - 1;
               s1 = (clearTimeout s k)\<lparr>isSpeaking := True\<rparr>
           in if played then resolve s1 k else reject s1 k ''play() failed'')"
| "on_event AudioError s =
     (let s1 = s\<lparr>isSpeaking := False\<rparr>
      in if calls s = [] then s1
         else reject s1 (length (calls s) - 1) ''Failed to load dictionary audio'')"
| "on_event AudioEnded s = s\<lparr>isSpeaking := False\<rparr>"
| "on_event (TimerFired k) s =
     (if k < length (calls s) \<and> timerArmed (calls s ! k)
      then reject (clearTimeout s k) k ''Dictionary audio load timeout''
      else s)"
| "on_event UtteranceStart s = s\<lparr>isSpeaking := True\<rparr>"
| "on_event UtteranceEnd s = s\<lparr>isSpeaking := False\<rparr>"
| "on_event UtteranceError s = s\<lparr>isSpeaking := False\<rparr>"

text \<open>
  The ways the dictionary attempt of the call numbered \<open>k\<close> fails, as long as that call is
  the last one.
\<close>

definition attempt_fails :: "nat \<Rightarrow> speech_event \<Rightarrow> bool" where
  "attempt_fails k e = (e = AudioError \<or> e = TimerFired k \<or> e = CanPlayThrough False)"

text \<open>
  What the specification states: after a failed attempt \<open>isSpeaking\<close> is false until the
  fallback's playback starts, that is in every state before the first \<open>UtteranceStart\<close>.
\<close>

fun silent_until_start :: "speech_event list \<Rightarrow> useSpeech \<Rightarrow> bool" where
  "silent_until_start [] s = (\<not> isSpeaking s)"
| "silent_until_start (e # es) s =
     (\<not> isSpeaking s \<and> (e = UtteranceStart \<or> silent_until_start es (on_event e s)))"

definition idle_service :: "audioSource \<Rightarrow> useSpeech" where
  \<comment> \<open>the service after mount in a browser with speech synthesis, for the examples\<close>
  "idle_service src =
     \<lparr> isSpeaking = False, isSupported = True, audioSource = src, audioElement = True,
       audioSrc = None, calls = [], spoken = [], console = [] \<rparr>"

definition no_can_play :: "speech_event \<Rightarrow> bool" where
  "no_can_play e = (case e of CanPlayThrough played \<Rightarrow> False | _ \<Rightarrow> True)"

section \<open>Properties of the letter puzzle\<close>

lemma generateLetterPuzzle_length: "length (generateLetterPuzzle w) = length w"
  by (simp add: generateLetterPuzzle_def Let_def)

lemma generateLetterPuzzle_nth:
  "i < length w \<Longrightarrow>
   generateLetterPuzzle w ! i = (if mask_policy (length w) i then CHR ''_'' else w ! i)"
  by (simp add: generateLetterPuzzle_def mask_policy_def Let_def nth_enumerate_eq
      odd_iff_mod_2_eq_one)

text \<open>
  C4. \<^verbatim>\<open>generateLetterPuzzle\<close> keeps the length of the word and follows the masking
  policy keyed on that length: position \<open>i\<close> holds an underscore where the policy masks
  it (the middle position \<open>length div 2\<close> up to length 3, the odd positions up to length
  6, the positions with \<open>i mod 3 = 1\<close> or \<open>i mod 5 = 2\<close> beyond) and the word's own
  character everywhere else; so \<^verbatim>\<open>cat\<close> becomes \<^verbatim>\<open>c_t\<close> and \<^verbatim>\<open>garden\<close> becomes \<^verbatim>\<open>g_r_e_\<close>.
\<close>

theorem generateLetterPuzzle_policy:
  "length (generateLetterPuzzle w) = length w
   \<and> (\<forall>i<length w. generateLetterPuzzle w ! i
          = (if mask_policy (length w) i then CHR ''_'' else w ! i))
   \<and> generateLetterPuzzle ''cat'' = ''c_t''
   \<and> generateLetterPuzzle ''garden'' = ''g_r_e_''"
proof -
  have "generateLetterPuzzle ''cat'' = ''c_t''"
    by code_simp
  moreover have "generateLetterPuzzle ''garden'' = ''g_r_e_''"
    by code_simp
  ultimately show ?thesis
    by (simp add: generateLetterPuzzle_length generateLetterPuzzle_nth)
qed

theorem generateLetterPuzzle_policy_witness:
  "length (generateLetterPuzzle ''birthday'') = 8
   \<and> generateLetterPuzzle ''birthday'' ! 1 = CHR ''_''
   \<and> generateLetterPuzzle ''birthday'' ! 2 = CHR ''_''
   \<and> generateLetterPuzzle ''birthday'' ! 3 = CHR ''t''"
proof -
  note policy = generateLetterPuzzle_policy [of "''birthday''"]
  from policy have nth: "\<And>i. i < length ''birthday'' \<Longrightarrow> generateLetterPuzzle ''birthday'' ! i
      = (if mask_policy (length ''birthday'') i then CHR ''_'' else ''birthday'' ! i)"
    by blast
  from policy have "length (generateLetterPuzzle ''birthday'') = length ''birthday''"
    by (rule conjunct1)
  then show ?thesis
    using nth [of 1] nth [of 2] nth [of 3] by (simp add: mask_policy_def)
qed

lemma hidden_indices_length:
  "length (filter (\<lambda>index. p ! index = c) [0..<length p]) = length (filter (\<lambda>x. x = c) p)"
proof -
  have "filter (\<lambda>x. x = c) (map ((!) p) [0..<length p])
        = map ((!) p) (filter ((\<lambda>x. x = c) \<circ> (!) p) [0..<length p])"
    by (rule filter_map)
  then have "length (filter (\<lambda>x. x = c) p) = length (filter ((\<lambda>x. x = c) \<circ> (!) p) [0..<length p])"
    by (simp add: map_nth)
  then show ?thesis by (simp add: comp_def)
qed

lemma getHint_no_mask: "CHR ''_'' \<notin> set p \<Longrightarrow> getHint k p w = p"
proof -
  assume "CHR ''_'' \<notin> set p"
  then have "filter (\<lambda>index. p ! index = CHR ''_'') [0..<length p] = []"
    by (auto simp: filter_empty_conv in_set_conv_nth)
  then show ?thesis by (simp add: getHint_def)
qed

lemma getHint_reveals:
  assumes "length p \<le> length w" and "k < masked_count p"
  shows "\<exists>i<length p. p ! i = CHR ''_'' \<and> getHint k p w = p[i := w ! i]"
proof -
  let ?h = "filter (\<lambda>index. p ! index = CHR ''_'') [0..<length p]"
  have len: "length ?h = masked_count p"
    by (simp add: masked_count_def hidden_indices_length)
  with assms have "?h ! k \<in> set ?h" by (simp del: set_filter)
  then have i: "?h ! k < length p" "p ! (?h ! k) = CHR ''_''" by auto
  have "\<not> length ?h = 0" "\<not> length ?h \<le> k" "?h ! k < length w"
    using assms len i by simp_all
  then have "getHint k p w = p[?h ! k := w ! (?h ! k)]"
    unfolding getHint_def Let_def by (simp only: if_False if_True)
  with i show ?thesis by blast
qed

lemma masked_count_card: "masked_count p = card {i. i < length p \<and> p ! i = CHR ''_''}"
  by (simp add: masked_count_def length_filter_conv_card)

lemma masked_count_update:
  assumes "i < length p" "p ! i = CHR ''_''" "x \<noteq> CHR ''_''"
  shows "Suc (masked_count (p[i := x])) = masked_count p"
proof -
  let ?A = "{j. j < length p \<and> p ! j = CHR ''_''}"
  have eq: "{j. j < length (p[i := x]) \<and> p[i := x] ! j = CHR ''_''} = ?A - {i}"
    using assms by (auto simp: nth_list_update)
  have "Suc (card (?A - {i})) = card ?A"
    by (rule card_Suc_Diff1) (use assms in simp_all)
  then show ?thesis
    by (simp only: masked_count_card eq)
qed

lemma getHint_step:
  assumes "agrees p w" "CHR ''_'' \<notin> set w" "k < masked_count p"
  shows "agrees (getHint k p w) w \<and> Suc (masked_count (getHint k p w)) = masked_count p"
proof -
  from assms have len: "length p = length w" by (simp add: agrees_def)
  then have "length p \<le> length w" by simp
  from getHint_reveals [OF this assms(3)] obtain i where
    i: "i < length p" "p ! i = CHR ''_''" "getHint k p w = p[i := w ! i]" by blast
  have "w ! i \<in> set w" using i(1) len by simp
  then have "w ! i \<noteq> CHR ''_''" using assms(2) by auto
  then have "Suc (masked_count (p[i := w ! i])) = masked_count p"
    using i by (simp add: masked_count_update)
  moreover have "agrees (p[i := w ! i]) w"
    using assms(1) i(1) by (auto simp: agrees_def nth_list_update)
  ultimately show ?thesis using i(3) by simp
qed

lemma hints_count:
  assumes "agrees p w" "CHR ''_'' \<notin> set w" "\<forall>j<length ks. ks ! j < masked_count p - j"
    "length ks \<le> masked_count p"
  shows "agrees (hints ks p w) w \<and> masked_count (hints ks p w) = masked_count p - length ks"
  using assms
proof (induction ks arbitrary: p)
  case Nil
  then show ?case by simp
next
  case (Cons k ks)
  from Cons.prems(3) have k: "k < masked_count p" by fastforce
  from getHint_step [OF Cons.prems(1,2) k]
  have st: "agrees (getHint k p w) w" "Suc (masked_count (getHint k p w)) = masked_count p"
    by simp_all
  have "\<forall>j<length ks. ks ! j < masked_count (getHint k p w) - j"
  proof (intro allI impI)
    fix j assume "j < length ks"
    then have "(k # ks) ! Suc j < masked_count p - Suc j" using Cons.prems(3) by fastforce
    then show "ks ! j < masked_count (getHint k p w) - j" using st(2) by simp
  qed
  moreover have "length ks \<le> masked_count (getHint k p w)" using Cons.prems(4) st(2) by simp
  ultimately have "agrees (hints ks (getHint k p w) w) w
      \<and> masked_count (hints ks (getHint k p w) w) = masked_count (getHint k p w) - length ks"
    using Cons.IH st(1) Cons.prems(2) by blast
  then show ?case using st(2) by simp
qed

lemma agrees_generateLetterPuzzle: "agrees (generateLetterPuzzle w) w"
  by (simp add: agrees_def generateLetterPuzzle_length generateLetterPuzzle_nth)

lemma agrees_no_mask: "agrees p w \<Longrightarrow> masked_count p = 0 \<Longrightarrow> p = w"
  by (rule nth_equalityI) (auto simp: agrees_def masked_count_def filter_empty_conv)

text \<open>
  C5. \<^verbatim>\<open>getHint\<close> returns a puzzle without an underscore as it is; on a puzzle no
  longer than the word, with a draw inside the list of masked positions, it replaces
  the underscore of exactly one masked position by the word's character there. So for a
  word without underscores, hints asked one after the other on its generated puzzle,
  whatever the draws (each inside the positions still masked), bring the masked
  positions down by one each time and give the word back after exactly as many hints as
  the puzzle had masked positions.
\<close>

theorem getHint_reveals_until_word:
  "(CHR ''_'' \<notin> set p \<longrightarrow> getHint k p w = p)
   \<and> (length p \<le> length w \<and> k < masked_count p \<longrightarrow>
        (\<exists>i<length p. p ! i = CHR ''_'' \<and> getHint k p w = p[i := w ! i]))
   \<and> (CHR ''_'' \<notin> set w \<and> length ks = masked_count (generateLetterPuzzle w)
        \<and> (\<forall>j<length ks. ks ! j < length ks - j) \<longrightarrow>
        hints ks (generateLetterPuzzle w) w = w
        \<and> (\<forall>n\<le>length ks.
              masked_count (hints (take n ks) (generateLetterPuzzle w) w) = length ks - n))"
proof (intro conjI impI)
  assume "CHR ''_'' \<notin> set p"
  then show "getHint k p w = p" by (rule getHint_no_mask)
next
  assume "length p \<le> length w \<and> k < masked_count p"
  then show "\<exists>i<length p. p ! i = CHR ''_'' \<and> getHint k p w = p[i := w ! i]"
    by (simp add: getHint_reveals)
next
  let ?g = "generateLetterPuzzle w"
  assume a: "CHR ''_'' \<notin> set w \<and> length ks = masked_count ?g
      \<and> (\<forall>j<length ks. ks ! j < length ks - j)"
  then have w: "CHR ''_'' \<notin> set w" and len: "length ks = masked_count ?g"
    by simp_all
  have picks: "ks ! j < masked_count ?g - j" if "j < length ks" for j
    using a that by metis
  have prefix: "agrees (hints (take n ks) ?g w) w
      \<and> masked_count (hints (take n ks) ?g w) = length ks - n" if n: "n \<le> length ks" for n
  proof -
    have "\<forall>j<length (take n ks). take n ks ! j < masked_count ?g - j"
      using n picks by simp
    moreover have "length (take n ks) \<le> masked_count ?g" using len n by simp
    ultimately have "agrees (hints (take n ks) ?g w) w
        \<and> masked_count (hints (take n ks) ?g w) = masked_count ?g - length (take n ks)"
      using hints_count [OF agrees_generateLetterPuzzle, of w "take n ks"] w by blast
    then show ?thesis using len n by (simp add: min_absorb2)
  qed
  from prefix [of "length ks"] have "agrees (hints ks ?g w) w" "masked_count (hints ks ?g w) = 0"
    by simp_all
  then show "hints ks ?g w = w" by (rule agrees_no_mask)
  show "\<forall>n\<le>length ks. masked_count (hints (take n ks) ?g w) = length ks - n"
    using prefix by blast
qed

theorem getHint_reveals_until_word_witness:
  "getHint 0 ''garden'' ''garden'' = ''garden''
   \<and> masked_count (generateLetterPuzzle ''garden'') = 3
   \<and> getHint 1 ''g_r_e_'' ''garden'' = ''g_rde_''
   \<and> hints [2, 0, 0] (generateLetterPuzzle ''garden'') ''garden'' = ''garden''
   \<and> masked_count (hints [2, 0] (generateLetterPuzzle ''garden'') ''garden'') = 1"
proof -
  have m: "masked_count (generateLetterPuzzle ''garden'') = 3" by code_simp
  have g: "getHint 1 ''g_r_e_'' ''garden'' = ''g_rde_''" by code_simp
  have picks: "\<forall>j<length [2, 0, 0 :: nat]. [2, 0, 0 :: nat] ! j < length [2, 0, 0 :: nat] - j"
    by (auto simp: less_Suc_eq nth_Cons')
  note hint = getHint_reveals_until_word [of "''garden''" 0 "''garden''" "[2, 0, 0]"]
  from hint have 1: "getHint 0 ''garden'' ''garden'' = ''garden''" by simp
  from hint m picks have 2: "hints [2, 0, 0] (generateLetterPuzzle ''garden'') ''garden'' = ''garden''
      \<and> (\<forall>n\<le>length [2, 0, 0 :: nat].
            masked_count (hints (take n [2, 0, 0]) (generateLetterPuzzle ''garden'') ''garden'')
            = length [2, 0, 0 :: nat] - n)"
    by simp
  then have "masked_count (hints (take 2 [2, 0, 0]) (generateLetterPuzzle ''garden'') ''garden'')
      = length [2, 0, 0 :: nat] - 2"
    by (simp del: hints.simps take_Cons_numeral)
  then have 3: "masked_count (hints [2, 0] (generateLetterPuzzle ''garden'') ''garden'') = 1"
    by (simp add: numeral_2_eq_2)
  show ?thesis using 1 2 3 m g by simp
qed

section \<open>Properties of shuffling and of the wrong options\<close>

lemma shuffle_from_mset:
  "\<forall>i. rnd i \<le> i \<Longrightarrow> k < length xs \<Longrightarrow> mset (shuffle_from rnd k xs) = mset xs"
proof (induction k arbitrary: xs)
  case 0
  then show ?case by simp
next
  case (Suc k)
  let ?j = "rnd (Suc k)"
  have j: "?j < length xs" using Suc.prems by (meson le_less_trans)
  have "mset (xs[Suc k := xs ! ?j, ?j := xs ! Suc k]) = mset xs"
    using Suc.prems(2) j by (simp add: mset_swap)
  moreover have "mset (shuffle_from rnd k (xs[Suc k := xs ! ?j, ?j := xs ! Suc k]))
      = mset (xs[Suc k := xs ! ?j, ?j := xs ! Suc k])"
    using Suc.prems by (intro Suc.IH) simp_all
  ultimately show ?case by (simp add: Let_def)
qed

lemma shuffleArray_mset: "\<forall>i. rnd i \<le> i \<Longrightarrow> mset (shuffleArray rnd xs) = mset xs"
  by (cases xs) (simp_all add: shuffleArray_def shuffle_from_mset)

lemma wrong_pool_bound:
  "c \<in> word ` set ws \<Longrightarrow> length (filter (\<lambda>w. word w \<noteq> c) ws) \<le> length ws - 1"
proof -
  assume "c \<in> word ` set ws"
  then obtain x where "x \<in> set ws" "\<not> word x \<noteq> c" by auto
  then have "length (filter (\<lambda>w. word w \<noteq> c) ws) < length ws"
    by (rule length_filter_less)
  then show ?thesis by simp
qed

text \<open>
  C6. With draws in range, \<^verbatim>\<open>generateWrongOptions(words, c, n)\<close> never returns \<open>c\<close>; it
  is the first \<open>n\<close> entries of a shuffle, which is a permutation, of the words of the
  list that differ from \<open>c\<close>, so it has \<open>min n k\<close> entries where \<open>k\<close> counts those
  words. That is at most \<open>min n (length words - 1)\<close> when \<open>c\<close> is a word of the list, and the
  entries are distinct when the words of the list are. This holds for \<^verbatim>\<open>"cat"\<close> and 3
  in particular.
\<close>

theorem generateWrongOptions_pool:
  assumes "\<forall>i. rnd i \<le> i"
  shows "c \<notin> set (generateWrongOptions rnd ws c n)
   \<and> generateWrongOptions rnd ws c n
       = take n (shuffleArray rnd (map word (filter (\<lambda>w. word w \<noteq> c) ws)))
   \<and> mset (shuffleArray rnd (map word (filter (\<lambda>w. word w \<noteq> c) ws)))
       = mset (map word (filter (\<lambda>w. word w \<noteq> c) ws))
   \<and> length (generateWrongOptions rnd ws c n) = min n (length (filter (\<lambda>w. word w \<noteq> c) ws))
   \<and> (c \<in> word ` set ws \<longrightarrow> length (generateWrongOptions rnd ws c n) \<le> min n (length ws - 1))
   \<and> (distinct (map word ws) \<longrightarrow> distinct (generateWrongOptions rnd ws c n))"
proof -
  let ?pool = "map word (filter (\<lambda>w. word w \<noteq> c) ws)"
  let ?sh = "shuffleArray rnd ?pool"
  have m: "mset ?sh = mset ?pool" using assms by (rule shuffleArray_mset)
  have g: "generateWrongOptions rnd ws c n = take n ?sh"
    by (simp add: generateWrongOptions_def)
  have s: "set ?sh = set ?pool" using m by (rule mset_eq_setD)
  have "length ?sh = length ?pool" using m by (rule mset_eq_length)
  then have l: "length ?sh = length (filter (\<lambda>w. word w \<noteq> c) ws)" by simp
  have 1: "c \<notin> set (take n ?sh)"
  proof
    assume "c \<in> set (take n ?sh)"
    then have "c \<in> set ?sh" by (rule in_set_takeD)
    with s show False by auto
  qed
  have 2: "length (take n ?sh) = min n (length (filter (\<lambda>w. word w \<noteq> c) ws))"
    using l by simp
  have 3: "length (take n ?sh) \<le> min n (length ws - 1)" if "c \<in> word ` set ws"
    using wrong_pool_bound [OF that] 2 by simp
  have 4: "distinct (take n ?sh)" if "distinct (map word ws)"
  proof -
    from that have "distinct ?pool" by (rule distinct_map_filter)
    with m have "distinct ?sh" using mset_eq_imp_distinct_iff by blast
    then show ?thesis by simp
  qed
  show ?thesis using m g 1 2 3 4 by simp
qed

theorem generateWrongOptions_pool_witness:
  "(\<forall>i. (\<lambda>i. 0 :: nat) i \<le> i)
   \<and> ''cat'' \<notin> set (generateWrongOptions (\<lambda>i. 0) four_words ''cat'' 3)
   \<and> length (generateWrongOptions (\<lambda>i. 0) four_words ''cat'' 3) = 3
   \<and> distinct (generateWrongOptions (\<lambda>i. 0) four_words ''cat'' 3)"
proof -
  have r: "\<forall>i. (\<lambda>i. 0 :: nat) i \<le> i" by simp
  have d: "distinct (map word four_words)"
    by (simp add: four_words_def entry_def)
  have l: "min 3 (length (filter (\<lambda>w. word w \<noteq> ''cat'') four_words)) = 3"
    by (simp add: four_words_def entry_def)
  note pool = generateWrongOptions_pool [OF r, of "''cat''" four_words 3]
  from pool have 1: "''cat'' \<notin> set (generateWrongOptions (\<lambda>i. 0) four_words ''cat'' 3)"
    by (rule conjunct1)
  from pool have 2: "length (generateWrongOptions (\<lambda>i. 0) four_words ''cat'' 3)
      = min 3 (length (filter (\<lambda>w. word w \<noteq> ''cat'') four_words))"
    by blast
  from pool d have 3: "distinct (generateWrongOptions (\<lambda>i. 0) four_words ''cat'' 3)"
    by blast
  show ?thesis using 1 2 3 l by simp
qed

theorem generateWrongOptions_counterexample:
  "\<not> length (generateWrongOptions (\<lambda>i. 0) [entry ''dog''] ''cat'' 3)
       \<le> min 3 (length [entry ''dog''] - 1)
   \<and> \<not> distinct (generateWrongOptions (\<lambda>i. 0) [entry ''dog'', entry ''dog'', entry ''cat''] ''cat'' 3)"
  by (simp add: generateWrongOptions_def shuffleArray_def entry_def Let_def)

section \<open>Properties of the statistics\<close>

lemma count_correct_le: "length (filter (\<lambda>r. r_correct r) rs) \<le> length rs"
  by (rule length_filter_le)

text \<open>
  C7. For every results sequence, the \<open>correct\<close> and \<open>incorrect\<close> counts that
  \<^verbatim>\<open>calculateStats\<close> reports add up to the length of the sequence; both copies of the
  function do so, and both report that length as \<open>total\<close>.
\<close>

theorem calculateStats_correct_plus_incorrect:
  "correct (calculateStats r) + incorrect (calculateStats r) = length r
   \<and> total (calculateStats r) = length r
   \<and> correct (calculateStats_basic r) + incorrect (calculateStats_basic r) = length r
   \<and> total (calculateStats_basic r) = length r"
  using count_correct_le [of r]
  by (simp add: calculateStats_def calculateStats_basic_def Let_def)

theorem calculateStats_correct_plus_incorrect_witness:
  "correct (calculateStats (replicate 2 (answered True) @ [answered False])) = 2
   \<and> incorrect (calculateStats (replicate 2 (answered True) @ [answered False])) = 1
   \<and> total (calculateStats_basic (replicate 2 (answered True) @ [answered False])) = 3"
  using calculateStats_correct_plus_incorrect [of "replicate 2 (answered True) @ [answered False]"]
  by (simp add: calculateStats_def answered_def Let_def numeral_2_eq_2)

lemma no_hint_iff: "(\<not> truthy h \<or> is_zero h) = (or_zero h = 0)"
  by (cases h) (auto simp: truthy_def is_zero_def or_zero_def)

lemma calculateStats_hint_free:
  "withoutHints (calculateStats rs) = length (hint_free rs)
   \<and> correctWithoutHints (calculateStats rs) = length (filter (\<lambda>r. r_correct r) (hint_free rs))
   \<and> accuracy (calculateStats rs) =
       (if hint_free rs = [] then 0
        else Math_round (js_mul (js_div (of_nat (length (filter (\<lambda>r. r_correct r) (hint_free rs))))
                                        (of_nat (length (hint_free rs)))) 100))"
proof -
  have a: "filter (\<lambda>r. \<not> truthy (r_hintsUsed r) \<or> is_zero (r_hintsUsed r)) rs = hint_free rs"
    by (simp only: no_hint_iff hint_free_def)
  have "filter (\<lambda>r. r_correct r \<and> (\<not> truthy (r_hintsUsed r) \<or> is_zero (r_hintsUsed r))) rs
      = filter (\<lambda>r. r_correct r \<and> or_zero (r_hintsUsed r) = 0) rs"
    by (simp only: no_hint_iff)
  also have "\<dots> = filter (\<lambda>r. r_correct r) (hint_free rs)"
    by (simp add: hint_free_def conj_commute)
  finally have b: "filter (\<lambda>r. r_correct r \<and> (\<not> truthy (r_hintsUsed r) \<or> is_zero (r_hintsUsed r))) rs
      = filter (\<lambda>r. r_correct r) (hint_free rs)" .
  have c: "(0 < length (hint_free rs)) = (hint_free rs \<noteq> [])" by simp
  show ?thesis
    unfolding calculateStats_def Let_def a b c by simp
qed

lemma hint_free_idem: "hint_free (hint_free rs) = hint_free rs"
  by (simp add: hint_free_def)

subsection \<open>Rounding to a double\<close>

lemma round_half_even_error: "\<bar>of_int (round_half_even x) - x\<bar> \<le> 1 / 2"
proof -
  have "of_int \<lfloor>x\<rfloor> \<le> x" "x < of_int \<lfloor>x\<rfloor> + 1" by linarith+
  then show ?thesis by (auto simp: round_half_even_def Let_def)
qed

lemma floor_log2_le:
  assumes "0 < x"
  shows "2 powi (floor_log2 x) \<le> x"
proof -
  obtain a b where q: "quotient_of x = (a, b)" by (cases "quotient_of x")
  then have b: "0 < b" by (rule quotient_of_denom_pos)
  from q have x: "x = of_int a / of_int b" by (rule quotient_of_div)
  with assms b have a: "0 < a" by (simp add: zero_less_divide_iff)
  from bitlen_bounds [OF a] have la: "2 ^ nat (bitlen a - 1) \<le> a" by simp
  from bitlen_bounds [OF b] have lb: "b < 2 ^ nat (bitlen b)" by simp
  have la1: "1 \<le> bitlen a" using a by (auto simp: bitlen_alt_def)
  have lb0: "0 \<le> bitlen b" by (rule bitlen_nonneg)
  have "(2::rat) powi (bitlen a - bitlen b - 1) = 2 powi (bitlen a - 1) / 2 powi (bitlen b)"
    using power_int_diff [of "2::rat" "bitlen a - 1" "bitlen b"] by (simp add: algebra_simps)
  also have "(2::rat) powi (bitlen a - 1) = 2 ^ nat (bitlen a - 1)"
    using la1 by (simp add: power_int_def)
  also have "(2::rat) powi (bitlen b) = 2 ^ nat (bitlen b)"
    using lb0 by (simp add: power_int_def)
  also have "(2::rat) ^ nat (bitlen a - 1) / 2 ^ nat (bitlen b) \<le> of_int a / of_int b"
  proof (rule frac_le)
    show "(0::rat) \<le> of_int a" using a by simp
    have "(of_int (2 ^ nat (bitlen a - 1)) :: rat) \<le> of_int a" using la by (simp only: of_int_le_iff)
    then show "(2::rat) ^ nat (bitlen a - 1) \<le> of_int a" by simp
    show "(0::rat) < of_int b" using b by simp
    have "(of_int b :: rat) \<le> of_int (2 ^ nat (bitlen b))" using lb by (simp only: of_int_le_iff less_imp_le)
    then show "(of_int b :: rat) \<le> 2 ^ nat (bitlen b)" by simp
  qed
  finally have low: "2 powi (bitlen a - bitlen b - 1) \<le> x" using x by simp
  show ?thesis using q low by (simp add: floor_log2_def Let_def)
qed

lemma floor_log2_less:
  assumes "0 < x"
  shows "x < 2 powi (floor_log2 x + 1)"
proof -
  obtain a b where q: "quotient_of x = (a, b)" by (cases "quotient_of x")
  then have b: "0 < b" by (rule quotient_of_denom_pos)
  from q have x: "x = of_int a / of_int b" by (rule quotient_of_div)
  with assms b have a: "0 < a" by (simp add: zero_less_divide_iff)
  from bitlen_bounds [OF a] have la: "a < 2 ^ nat (bitlen a)" by simp
  from bitlen_bounds [OF b] have lb: "2 ^ nat (bitlen b - 1) \<le> b" by simp
  have la0: "0 \<le> bitlen a" by (rule bitlen_nonneg)
  have lb1: "1 \<le> bitlen b" using b by (auto simp: bitlen_alt_def)
  have "of_int a / of_int b < (2::rat) ^ nat (bitlen a) / 2 ^ nat (bitlen b - 1)"
  proof (rule frac_less)
    show "(0::rat) \<le> of_int a" using a by simp
    have "(of_int a :: rat) < of_int (2 ^ nat (bitlen a))" using la by (simp only: of_int_less_iff)
    then show "(of_int a :: rat) < 2 ^ nat (bitlen a)" by simp
    show "(0::rat) < 2 ^ nat (bitlen b - 1)" by simp
    have "(of_int (2 ^ nat (bitlen b - 1)) :: rat) \<le> of_int b" using lb by (simp only: of_int_le_iff)
    then show "(2::rat) ^ nat (bitlen b - 1) \<le> of_int b" by simp
  qed
  also have "(2::rat) ^ nat (bitlen a) = 2 powi (bitlen a)"
    using la0 by (simp add: power_int_def)
  also have "(2::rat) ^ nat (bitlen b - 1) = 2 powi (bitlen b - 1)"
    using lb1 by (simp add: power_int_def)
  also have "(2::rat) powi (bitlen a) / 2 powi (bitlen b - 1) = 2 powi (bitlen a - bitlen b + 1)"
    using power_int_diff [of "2::rat" "bitlen a" "bitlen b - 1"] by (simp add: algebra_simps)
  finally have up: "x < 2 powi (bitlen a - bitlen b + 1)" using x by simp
  show ?thesis using q up by (auto simp: floor_log2_def Let_def not_le)
qed

lemma binary64_examples:
  "binary64 (1 / 10) = 3602879701896397 / 36028797018963968
   \<and> js_div 23 40 = 2589569785738035 / 4503599627370496
   \<and> js_mul (js_div 23 40) 100 = 8092405580431359 / 140737488355328
   \<and> binary64 (1 / 2) = 1 / 2 \<and> binary64 100 = 100"
  by code_simp

lemma binary64_error:
  assumes "0 < x"
  shows "\<bar>binary64 x - x\<bar> \<le> x / 2 ^ 53"
proof -
  let ?e = "floor_log2 x"
  let ?u = "(2::rat) powi (?e - 52)"
  have u: "0 < ?u" by simp
  have b: "binary64 x = of_int (round_half_even (x / ?u)) * ?u"
    using assms by (simp add: binary64_def Let_def)
  have "binary64 x - x = (of_int (round_half_even (x / ?u)) - x / ?u) * ?u"
    using u by (simp add: b algebra_simps)
  then have "\<bar>binary64 x - x\<bar> = \<bar>of_int (round_half_even (x / ?u)) - x / ?u\<bar> * ?u"
    using u by (simp add: abs_mult)
  also have "\<dots> \<le> (1 / 2) * ?u"
    using round_half_even_error [of "x / ?u"] u by (intro mult_right_mono) simp_all
  also have "?u = 2 powi ?e / 2 powi 52"
    by (rule power_int_diff) simp
  also have "(1 / 2) * (2 powi ?e / 2 powi 52) = (2::rat) powi ?e / 2 ^ 53"
    by simp
  also have "\<dots> \<le> x / 2 ^ 53"
    using floor_log2_le [OF assms] by (simp add: divide_right_mono)
  finally show ?thesis .
qed


lemma percent_error:
  assumes "c \<le> w" "0 < w"
  shows "\<bar>js_mul (js_div (of_nat c) (of_nat w)) 100 - 100 * of_nat c / of_nat w\<bar> \<le> 1 / 2 ^ 45"
proof (cases "c = 0")
  case True
  then show ?thesis by (simp add: js_mul_def js_div_def binary64_def)
next
  case False
  define q :: rat where "q = of_nat c / of_nat w"
  define y1 where "y1 = binary64 q"
  define y where "y = binary64 (y1 * 100)"
  have p53: "(2::rat) ^ 53 = 9007199254740992" and p45: "(2::rat) ^ 45 = 35184372088832"
    by simp_all
  have q: "0 < q" "q \<le> 1" using assms False by (simp_all add: q_def)
  have e1: "\<bar>y1 - q\<bar> \<le> q / 9007199254740992"
    unfolding y1_def p53 [symmetric] using q(1) by (rule binary64_error)
  have y1: "0 < y1" using e1 q by linarith
  then have "0 < y1 * 100" by simp
  then have e2: "\<bar>y - y1 * 100\<bar> \<le> y1 * 100 / 9007199254740992"
    unfolding y_def p53 [symmetric] by (rule binary64_error)
  have "\<bar>y - 100 * q\<bar> \<le> 1 / 35184372088832" using e1 e2 q by linarith
  then show ?thesis
    unfolding p45 by (simp add: y_def y1_def q_def js_mul_def js_div_def)
qed

lemma Math_round_percent:
  assumes w: "0 < w" and y: "\<bar>y - 100 * of_nat c / of_nat w\<bar> \<le> 1 / 2 ^ 45"
    and small: "w < 2 ^ 44"
  shows "((200 * c + w) mod (2 * w) \<noteq> 0 \<longrightarrow> Math_round y = Math_round (100 * of_nat c / of_nat w))
    \<and> Math_round (100 * of_nat c / of_nat w) - 1 \<le> Math_round y
    \<and> Math_round y \<le> Math_round (100 * of_nat c / of_nat w)"
proof -
  define D where "D = 2 * w"
  define n where "n = (200 * c + w) div D"
  define r where "r = (200 * c + w) mod D"
  define X :: rat where "X = 100 * of_nat c / of_nat w"
  have p45: "(2::rat) ^ 45 = 35184372088832" by simp
  have D: "0 < D" "D < 2 ^ 45" using w small by (simp_all add: D_def)
  have r: "r < D" unfolding r_def using D(1) by simp
  have "200 * c + w = n * D + r" by (simp add: n_def r_def)
  then have "(of_nat (200 * c + w) :: rat) = of_nat (n * D + r)" by simp
  then have "(200 * of_nat c + of_nat w :: rat) = of_nat n * of_nat D + of_nat r" by simp
  moreover have "X + 1 / 2 = (200 * of_nat c + of_nat w) / of_nat D"
    using w by (simp add: X_def D_def field_simps)
  ultimately have X: "X + 1 / 2 = of_nat n + of_nat r / of_nat D"
    using D(1) by (simp add: field_simps)
  have frac: "0 \<le> (of_nat r / of_nat D :: rat)" "(of_nat r / of_nat D :: rat) < 1"
    using r D(1) by simp_all
  have mx: "Math_round X = int n"
    unfolding Math_round_def X using frac by (intro floor_unique) simp_all
  have inv: "(1 / 2 ^ 45 :: rat) < 1 / of_nat D"
  proof -
    have "(of_nat D :: rat) < of_nat (2 ^ 45)" using D(2) by (simp only: of_nat_less_iff)
    then show ?thesis using D(1) by (simp add: field_simps)
  qed
  have yX: "\<bar>y - X\<bar> \<le> 1 / 2 ^ 45" using y by (simp add: X_def)
  have tie: "Math_round X - 1 \<le> Math_round y \<and> Math_round y \<le> Math_round X" if "r = 0"
  proof -
    from that X have "X + 1 / 2 = of_nat n" by simp
    with yX have "of_int (int n - 1) \<le> y + 1 / 2" "y + 1 / 2 < of_int (int n + 1)"
      unfolding p45 of_int_diff of_int_add of_int_of_nat_eq of_int_1 by linarith+
    then have "int n - 1 \<le> \<lfloor>y + 1 / 2\<rfloor>" "\<lfloor>y + 1 / 2\<rfloor> < int n + 1"
      by (simp_all only: le_floor_iff floor_less_iff)
    then show ?thesis using mx by (simp add: Math_round_def)
  qed
  have exact: "Math_round y = Math_round X" if "r \<noteq> 0"
  proof -
    from that have "1 \<le> r" by simp
    then have "(1 :: rat) \<le> of_nat r" by simp
    then have lo: "(1 / of_nat D :: rat) \<le> of_nat r / of_nat D"
      using D(1) by (simp add: divide_right_mono)
    from r have "r + 1 \<le> D" by simp
    then have "(of_nat (r + 1) :: rat) \<le> of_nat D" by (simp only: of_nat_le_iff)
    then have "(of_nat r + 1 :: rat) \<le> of_nat D" by simp
    then have "(of_nat r + 1) / of_nat D \<le> (1 :: rat)" using D(1) by simp
    then have hi: "(of_nat r / of_nat D :: rat) \<le> 1 - 1 / of_nat D"
      by (simp add: add_divide_distrib)
    have "of_int (int n) \<le> y + 1 / 2" "y + 1 / 2 < of_int (int n) + 1"
      using X yX inv lo hi unfolding p45 of_int_of_nat_eq by linarith+
    then have "\<lfloor>y + 1 / 2\<rfloor> = int n" by (rule floor_unique)
    then show ?thesis using mx by (simp add: Math_round_def)
  qed
  have both: "Math_round X - 1 \<le> Math_round y \<and> Math_round y \<le> Math_round X"
    using tie exact by (cases "r = 0") simp_all
  show ?thesis using both exact by (simp add: X_def r_def D_def)
qed

lemma accuracy_close:
  assumes "0 < w" "c \<le> w" "w < 2 ^ 32"
  shows "((200 * c + w) mod (2 * w) \<noteq> 0 \<longrightarrow>
      Math_round (js_mul (js_div (of_nat c) (of_nat w)) 100) = Math_round (100 * of_nat c / of_nat w))
    \<and> Math_round (100 * of_nat c / of_nat w) - 1 \<le> Math_round (js_mul (js_div (of_nat c) (of_nat w)) 100)
    \<and> Math_round (js_mul (js_div (of_nat c) (of_nat w)) 100) \<le> Math_round (100 * of_nat c / of_nat w)"
proof -
  have "(2::nat) ^ 32 \<le> 2 ^ 44" by simp
  with assms(3) have "w < 2 ^ 44" by (rule less_le_trans)
  with assms(1) percent_error [OF assms(2,1)] show ?thesis by (rule Math_round_percent)
qed

subsection \<open>The accuracy\<close>

text \<open>
  C3. \<^verbatim>\<open>calculateStats\<close> (the copy that knows hints) computes the accuracy from the
  hint-free results alone, in numerator and denominator: it is 0 when there is none, and
  otherwise \<^verbatim>\<open>Math.round\<close> of the double \<^verbatim>\<open>(c / w) * 100\<close>, where \<open>w\<close> counts the
  hint-free results and \<open>c\<close> the correct ones among them; results with hints change
  nothing. For a sequence as long as an array can be, this is the rounded exact
  percentage \<open>100 c / w\<close> unless that lies exactly halfway between two integers, and
  then it is that rounded value or one less.
\<close>

theorem calculateStats_accuracy_hint_free:
  "accuracy (calculateStats rs) =
     (if hint_free rs = [] then 0
      else Math_round (js_mul (js_div (of_nat (length (filter (\<lambda>r. r_correct r) (hint_free rs))))
                                      (of_nat (length (hint_free rs)))) 100))
   \<and> accuracy (calculateStats rs) = accuracy (calculateStats (hint_free rs))
   \<and> (length (hint_free rs) < 2 ^ 32 \<longrightarrow>
        stated_accuracy rs - 1 \<le> accuracy (calculateStats rs)
        \<and> accuracy (calculateStats rs) \<le> stated_accuracy rs
        \<and> ((200 * length (filter (\<lambda>r. r_correct r) (hint_free rs)) + length (hint_free rs))
              mod (2 * length (hint_free rs)) \<noteq> 0 \<longrightarrow>
            accuracy (calculateStats rs) = stated_accuracy rs))"
proof -
  let ?w = "length (hint_free rs)" and ?c = "length (filter (\<lambda>r. r_correct r) (hint_free rs))"
  have a: "accuracy (calculateStats rs) =
     (if hint_free rs = [] then 0 else Math_round (js_mul (js_div (of_nat ?c) (of_nat ?w)) 100))"
    using calculateStats_hint_free [of rs] by simp
  have b: "accuracy (calculateStats rs) = accuracy (calculateStats (hint_free rs))"
    using calculateStats_hint_free [of rs] calculateStats_hint_free [of "hint_free rs"]
    by (simp add: hint_free_idem)
  have c: "stated_accuracy rs - 1 \<le> accuracy (calculateStats rs)
      \<and> accuracy (calculateStats rs) \<le> stated_accuracy rs
      \<and> ((200 * ?c + ?w) mod (2 * ?w) \<noteq> 0 \<longrightarrow> accuracy (calculateStats rs) = stated_accuracy rs)"
    if small: "?w < 2 ^ 32"
  proof (cases "hint_free rs = []")
    case True
    then show ?thesis using a by (simp add: stated_accuracy_def)
  next
    case False
    then have w: "0 < ?w" by simp
    have cw: "?c \<le> ?w" by (rule length_filter_le)
    from False have s: "stated_accuracy rs = Math_round (100 * of_nat ?c / of_nat ?w)"
      by (simp add: stated_accuracy_def)
    from False a have a': "accuracy (calculateStats rs)
        = Math_round (js_mul (js_div (of_nat ?c) (of_nat ?w)) 100)"
      by simp
    from accuracy_close [OF w cw small] show ?thesis unfolding s a' by blast
  qed
  show ?thesis using a b c by blast
qed

theorem calculateStats_accuracy_hint_free_witness:
  "accuracy (calculateStats [answered True, assisted True, answered False, assisted False]) = 50
   \<and> accuracy (calculateStats [answered True, answered False]) = 50
   \<and> accuracy (calculateStats [assisted True]) = 0
   \<and> accuracy (calculateStats [answered True, answered False, answered False]) = 33
   \<and> stated_accuracy [answered True, answered False, answered False] = 33"
proof -
  have half: "Math_round (js_mul (js_div 1 2) 100) = 50" by code_simp
  have third: "Math_round (100 * 1 / 3) = 33" by code_simp
  have hf: "hint_free [answered True, answered False, answered False]
      = [answered True, answered False, answered False]"
    by (simp add: hint_free_def answered_def or_zero_def)
  have s: "stated_accuracy [answered True, answered False, answered False] = 33"
    using third by (simp add: stated_accuracy_def hf) (simp add: answered_def)
  have len: "length (hint_free [answered True, answered False, answered False]) < 2 ^ 32"
    "(200 * length (filter (\<lambda>r. r_correct r) (hint_free [answered True, answered False, answered False]))
        + length (hint_free [answered True, answered False, answered False]))
      mod (2 * length (hint_free [answered True, answered False, answered False])) \<noteq> 0"
    unfolding hf by (simp_all add: answered_def)
  from calculateStats_accuracy_hint_free [of "[answered True, answered False, answered False]"] len
  have "accuracy (calculateStats [answered True, answered False, answered False])
      = stated_accuracy [answered True, answered False, answered False]"
    by blast
  with s have 4: "accuracy (calculateStats [answered True, answered False, answered False]) = 33"
    by simp
  have 123: "accuracy (calculateStats [answered True, assisted True, answered False, assisted False]) = 50
      \<and> accuracy (calculateStats [answered True, answered False]) = 50
      \<and> accuracy (calculateStats [assisted True]) = 0"
    using half
      calculateStats_accuracy_hint_free [of "[answered True, assisted True, answered False, assisted False]"]
      calculateStats_accuracy_hint_free [of "[answered True, answered False]"]
      calculateStats_accuracy_hint_free [of "[assisted True]"]
    by (simp add: hint_free_def answered_def assisted_def or_zero_def)
  show ?thesis using 123 4 s by blast
qed

lemma forty_results_counts:
  "hint_free forty_results = forty_results \<and> length forty_results = 40
   \<and> length (filter (\<lambda>r. r_correct r) forty_results) = 23"
  by (simp add: forty_results_def hint_free_def answered_def or_zero_def)

theorem calculateStats_accuracy_counterexample:
  "accuracy (calculateStats forty_results) = 57 \<and> stated_accuracy forty_results = 58"
proof -
  have "Math_round (js_mul (js_div 23 40) 100) = 57" by code_simp
  moreover have "Math_round (100 * 23 / 40) = 58" by code_simp
  moreover have "forty_results \<noteq> []" using forty_results_counts by auto
  ultimately show ?thesis
    using calculateStats_hint_free [of forty_results] forty_results_counts
    by (simp add: stated_accuracy_def)
qed

section \<open>Properties of the history store\<close>

text \<open>
  C8. \<^verbatim>\<open>getHistory\<close> returns the empty array when there is no record under the
  history key, and when the record does not parse; it never raises, and a failed parse
  or a denied access is written to the console. \<^verbatim>\<open>clearHistory\<close> removes the record
  where storage is accessible, and \<^verbatim>\<open>getHistory\<close> returns the empty array after it in
  either case.
\<close>

theorem getHistory_empty:
  "(getItem ls HISTORY_KEY = Inr None \<longrightarrow> getHistory parse ls = (JArray [], []))
   \<and> (getItem ls HISTORY_KEY = Inr (Some h) \<and> parse h = None \<longrightarrow>
        fst (getHistory parse ls) = JArray []
        \<and> (h \<noteq> [] \<longrightarrow> snd (getHistory parse ls) = [''Error reading history:'']))
   \<and> (getItem ls HISTORY_KEY = Inl e \<longrightarrow>
        getHistory parse ls = (JArray [], [''Error reading history:'']))
   \<and> (\<not> denied ls \<longrightarrow>
        items (fst (clearHistory ls)) HISTORY_KEY = None
        \<and> getHistory parse (fst (clearHistory ls)) = (JArray [], []))
   \<and> fst (getHistory parse (fst (clearHistory ls))) = JArray []"
  by (auto simp: getHistory_def clearHistory_def getItem_def removeItem_def
      split: sum.splits option.splits if_splits)

theorem getHistory_empty_witness:
  "getHistory (\<lambda>s. None) \<lparr> denied = False, items = Map.empty \<rparr> = (JArray [], [])
   \<and> getHistory (\<lambda>s. None) \<lparr> denied = False, items = [HISTORY_KEY \<mapsto> ''{bad''] \<rparr>
       = (JArray [], [''Error reading history:''])
   \<and> getHistory (\<lambda>s. Some (JArray [JNull]))
        (fst (clearHistory \<lparr> denied = False, items = [HISTORY_KEY \<mapsto> ''[null]''] \<rparr>))
       = (JArray [], [])"
  using getHistory_empty [of "\<lparr> denied = False, items = Map.empty \<rparr>" "\<lambda>s. None"]
    getHistory_empty [of "\<lparr> denied = False, items = [HISTORY_KEY \<mapsto> ''{bad''] \<rparr>" "\<lambda>s. None" "''{bad''"]
    getHistory_empty [of "\<lparr> denied = False, items = [HISTORY_KEY \<mapsto> ''[null]''] \<rparr>"
      "\<lambda>s. Some (JArray [JNull])"]
  by (simp add: getItem_def prod_eq_iff)

section \<open>Properties of the quiz components\<close>

subsection \<open>One call of \<open>handleNext\<close>\<close>

lemma handleNext_words:
  "words (fst (handleNext s)) =
     (if isCorrect s \<noteq> Some True \<and> retryCount (words s ! currentIndex s) = 0
      then take (min (currentIndex s + 3) (length (words s))) (words s)
           @ [(words s ! currentIndex s)\<lparr>retryCount := 1\<rparr>]
           @ drop (min (currentIndex s + 3) (length (words s))) (words s)
      else words s)"
  by (simp add: handleNext_def Let_def)

lemma handleNext_index:
  "currentIndex (fst (handleNext s)) =
     (if currentIndex s < length (words s) - 1 then currentIndex s + 1 else currentIndex s)"
  by (simp add: handleNext_def Let_def)

lemma handleNext_completed:
  "snd (handleNext s) =
     (if currentIndex s < length (words s) - 1 then None else Some (results s))"
  by (simp add: handleNext_def Let_def)

lemma filter_take_le: "length (filter P (take n xs)) \<le> length (filter P xs)"
proof -
  have "length (filter P (take n xs @ drop n xs)) = length (filter P xs)" by simp
  then show ?thesis by (simp del: append_take_drop_id)
qed

lemma filter_take_drop: "filter P (take n xs) @ filter P (drop n xs) = filter P xs"
  by (simp only: filter_append [symmetric] append_take_drop_id)

lemma length_filter_take_drop:
  "length (filter P (take n xs)) + length (filter P (drop n xs)) = length (filter P xs)"
  by (simp only: length_append [symmetric] filter_take_drop)

lemma insert_copy_inv:
  fixes ws :: "SessionWord list"
  assumes ci: "ci < length ws" and p: "ci < p" "p \<le> length ws"
    and rc: "retryCount (ws ! ci) = 0"
    and le: "length (filter (\<lambda>e. word e = x \<and> retryCount e = 1) ws)
        \<le> length (filter (\<lambda>e. word e = x \<and> retryCount e = 0) (take ci ws))"
  shows "length (filter (\<lambda>e. word e = x \<and> retryCount e = 1)
            (take p ws @ [(ws ! ci)\<lparr>retryCount := 1\<rparr>] @ drop p ws))
        \<le> length (filter (\<lambda>e. word e = x \<and> retryCount e = 0)
            (take (Suc ci) (take p ws @ [(ws ! ci)\<lparr>retryCount := 1\<rparr>] @ drop p ws)))"
proof -
  let ?one = "\<lambda>e::SessionWord. word e = x \<and> retryCount e = 1"
  let ?zero = "\<lambda>e::SessionWord. word e = x \<and> retryCount e = 0"
  have l: "length (filter ?one (take p ws @ [(ws ! ci)\<lparr>retryCount := 1\<rparr>] @ drop p ws))
      = length (filter ?one ws) + (if word (ws ! ci) = x then 1 else 0)"
    using length_filter_take_drop [of ?one p ws] by simp
  have "take (Suc ci) (take p ws @ [(ws ! ci)\<lparr>retryCount := 1\<rparr>] @ drop p ws) = take (Suc ci) ws"
    using p by (simp add: min_absorb1)
  also have "\<dots> = take ci ws @ [ws ! ci]" using ci by (rule take_Suc_conv_app_nth)
  finally have r: "length (filter ?zero
        (take (Suc ci) (take p ws @ [(ws ! ci)\<lparr>retryCount := 1\<rparr>] @ drop p ws)))
      = length (filter ?zero (take ci ws)) + (if word (ws ! ci) = x then 1 else 0)"
    using rc by simp
  show ?thesis using le unfolding l r by simp
qed

lemma handleNext_retry_inv:
  assumes "retry_inv ws0 (currentIndex s) s"
  shows "retry_inv ws0 (Suc (currentIndex s)) (fst (handleNext s))"
proof -
  let ?ws = "words s" and ?ci = "currentIndex s"
  let ?p = "min (?ci + 3) (length ?ws)"
  let ?cur = "?ws ! ?ci"
  from assms have ci: "?ci < length ?ws"
    and orig: "filter (\<lambda>e. retryCount e = 0) ?ws = map withRetryCount ws0"
    and rcs: "\<forall>e\<in>set ?ws. retryCount e \<le> 1"
    and le: "\<And>x. length (filter (\<lambda>e. word e = x \<and> retryCount e = 1) ?ws)
        \<le> length (filter (\<lambda>e. word e = x \<and> retryCount e = 0) (take ?ci ?ws))"
    by (simp_all add: retry_inv_def)
  show ?thesis
  proof (cases "isCorrect s \<noteq> Some True \<and> retryCount ?cur = 0")
    case True
    then have w: "words (fst (handleNext s)) = take ?p ?ws @ [?cur\<lparr>retryCount := 1\<rparr>] @ drop ?p ?ws"
      by (simp add: handleNext_words)
    have p: "?ci < ?p" "?p \<le> length ?ws" using ci by simp_all
    have 1: "currentIndex (fst (handleNext s)) < length (words (fst (handleNext s)))"
      using ci by (auto simp: w handleNext_index)
    have 2: "Suc ?ci \<le> length (words (fst (handleNext s)))" using ci by (simp add: w)
    have 3: "filter (\<lambda>e. retryCount e = 0) (words (fst (handleNext s))) = map withRetryCount ws0"
      unfolding w using orig by (simp add: filter_take_drop)
    have 4: "\<forall>e\<in>set (words (fst (handleNext s))). retryCount e \<le> 1"
      using rcs unfolding w by (auto dest: in_set_takeD in_set_dropD)
    have 5: "length (filter (\<lambda>e. word e = x \<and> retryCount e = 1) (words (fst (handleNext s))))
        \<le> length (filter (\<lambda>e. word e = x \<and> retryCount e = 0)
             (take (Suc ?ci) (words (fst (handleNext s)))))" for x
      unfolding w using ci p True le [of x] by (intro insert_copy_inv) simp_all
    show ?thesis unfolding retry_inv_def using 1 2 3 4 5 by blast
  next
    case False
    then have w: "words (fst (handleNext s)) = ?ws"
      unfolding handleNext_words by (simp only: if_False)
    have 1: "currentIndex (fst (handleNext s)) < length ?ws"
      using ci by (auto simp: handleNext_index)
    have 2: "Suc ?ci \<le> length ?ws" using ci by simp
    have "length (filter (\<lambda>e. word e = x \<and> retryCount e = 0) (take ?ci ?ws))
        \<le> length (filter (\<lambda>e. word e = x \<and> retryCount e = 0) (take (Suc ?ci) ?ws))" for x
      using ci by (simp add: take_Suc_conv_app_nth)
    then have 5: "length (filter (\<lambda>e. word e = x \<and> retryCount e = 1) ?ws)
        \<le> length (filter (\<lambda>e. word e = x \<and> retryCount e = 0) (take (Suc ?ci) ?ws))" for x
      using le [of x] by (rule le_trans [rotated])
    show ?thesis unfolding retry_inv_def w using 1 2 orig rcs 5 by blast
  qed
qed

subsection \<open>Sessions\<close>

lemma moves_retry_inv:
  assumes inv: "retry_inv ws0 (currentIndex s) s" and m: "moves_like_handleNext s s' completed"
  shows "retry_inv ws0 (passed s' completed) s'"
proof -
  from m consider
    (stay) "words s' = words s" "currentIndex s' = currentIndex s" "completed = None"
    | (move) "words s' = words (fst (handleNext s))"
        "currentIndex s' = currentIndex (fst (handleNext s))" "completed = snd (handleNext s)"
    unfolding moves_like_handleNext_def by blast
  then show ?thesis
  proof cases
    case stay
    then show ?thesis using inv by (simp add: passed_def retry_inv_def)
  next
    case move
    have "retry_inv ws0 (Suc (currentIndex s)) (fst (handleNext s))"
      using inv by (rule handleNext_retry_inv)
    then have "retry_inv ws0 (Suc (currentIndex s)) s'"
      using move by (simp add: retry_inv_def)
    moreover have "passed s' completed = Suc (currentIndex s)"
      using move by (simp add: passed_def handleNext_index handleNext_completed)
    ultimately show ?thesis by simp
  qed
qed

lemma ListenSpell_step_moves:
  "ListenSpell_step P e s = (s', completed) \<Longrightarrow> moves_like_handleNext s s' completed"
  by (cases e)
    (auto simp: moves_like_handleNext_def ListenSpell_timer_effect_def ListenSpell_handleSubmit_def
      ListenSpell_handleSkip_def ListenSpell_tick_def Let_def
      split: if_splits prod.splits)

lemma FillBlank_step_moves:
  "FillBlank_step P e s = (s', completed) \<Longrightarrow> moves_like_handleNext s s' completed"
  by (cases e)
    (auto simp: moves_like_handleNext_def FillBlank_handleSubmit_def
      FillBlank_handleSkip_def FillBlank_handleSelectOption_def Let_def
      split: if_splits prod.splits)

lemma LetterPuzzle_step_moves:
  "LetterPuzzle_step P e s = (s', completed) \<Longrightarrow> moves_like_handleNext s s' completed"
  by (cases e)
    (auto simp: moves_like_handleNext_def LetterPuzzle_after_def LetterPuzzle_puzzle_effect_def
      LetterPuzzle_handleSubmit_def LetterPuzzle_handleSkip_def LetterPuzzle_handleHint_def Let_def
      split: if_splits prod.splits)

lemma run_retry_inv:
  assumes step: "\<And>e s s' completed. step e s = (s', completed) \<Longrightarrow> moves_like_handleNext s s' completed"
  shows "retry_inv ws0 (currentIndex s) s \<Longrightarrow> run step es s = (s', completed) \<Longrightarrow>
         retry_inv ws0 (passed s' completed) s'"
proof (induction es arbitrary: s)
  case Nil
  then show ?case by (simp add: passed_def)
next
  case (Cons e es)
  obtain s1 c1 where s1: "step e s = (s1, c1)" by (cases "step e s")
  have inv1: "retry_inv ws0 (passed s1 c1) s1"
    using Cons.prems(1) step [OF s1] by (rule moves_retry_inv)
  show ?case
  proof (cases c1)
    case None
    then have "run step es s1 = (s', completed)" using Cons.prems(2) s1 by simp
    moreover have "retry_inv ws0 (currentIndex s1) s1" using inv1 None by (simp add: passed_def)
    ultimately show ?thesis by (rule Cons.IH [rotated])
  next
    case (Some rs)
    then have "s' = s1" "completed = c1" using Cons.prems(2) s1 by simp_all
    then show ?thesis using inv1 by simp
  qed
qed

lemma run_no_word:
  assumes step: "\<And>e s. \<not> currentIndex s < length (words s) \<Longrightarrow> step e s = (s, None)"
  shows "\<not> currentIndex s < length (words s) \<Longrightarrow> run step es s = (s, None)"
  by (induction es) (simp_all add: step)

lemma retry_inv_init:
  assumes "initialWords \<noteq> []" "words s = map withRetryCount initialWords" "currentIndex s = 0"
  shows "retry_inv initialWords (currentIndex s) s"
proof -
  have "filter (\<lambda>e. retryCount e = 0) (map withRetryCount initialWords) = map withRetryCount initialWords"
    by (simp add: filter_map comp_def withRetryCount_def)
  moreover have "\<forall>e\<in>set (map withRetryCount initialWords). retryCount e \<le> 1"
    by (simp add: withRetryCount_def)
  moreover have "filter (\<lambda>e. word e = x \<and> retryCount e = 1) (map withRetryCount initialWords) = []" for x
    by (simp add: filter_map comp_def withRetryCount_def)
  ultimately show ?thesis using assms by (simp add: retry_inv_def)
qed

lemma retry_inv_at_most_once:
  assumes "retry_inv initialWords n s"
  shows "retried_at_most_once initialWords (words s)"
proof -
  have "length (filter (\<lambda>e. word e = x \<and> retryCount e = 1) (words s))
         \<le> length (filter (\<lambda>w. word w = x) initialWords)" for x
  proof -
    let ?zero = "\<lambda>e::SessionWord. word e = x \<and> retryCount e = 0"
    from assms have orig: "filter (\<lambda>e. retryCount e = 0) (words s) = map withRetryCount initialWords"
      by (simp add: retry_inv_def)
    from assms have "length (filter (\<lambda>e. word e = x \<and> retryCount e = 1) (words s))
        \<le> length (filter ?zero (take n (words s)))"
      by (simp add: retry_inv_def)
    also have "length (filter ?zero (take n (words s))) \<le> length (filter ?zero (words s))"
      by (rule filter_take_le)
    also have "filter ?zero (words s) = filter (\<lambda>e. word e = x) (filter (\<lambda>e. retryCount e = 0) (words s))"
      by (simp add: conj_commute)
    also have "length \<dots> = length (filter (\<lambda>w. word w = x) initialWords)"
      unfolding orig by (simp add: filter_map comp_def withRetryCount_def)
    finally show ?thesis .
  qed
  then show ?thesis using assms by (simp add: retried_at_most_once_def retry_inv_def)
qed

lemma session_at_most_once:
  assumes step: "\<And>e s s' completed. step e s = (s', completed) \<Longrightarrow> moves_like_handleNext s s' completed"
    and stuck: "\<And>e s. \<not> currentIndex s < length (words s) \<Longrightarrow> step e s = (s, None)"
    and init: "words s0 = map withRetryCount initialWords" "currentIndex s0 = 0"
  shows "retried_at_most_once initialWords (words (fst (run step es s0)))"
proof (cases "initialWords = []")
  case True
  then have "run step es s0 = (s0, None)" using init by (intro run_no_word stuck) simp_all
  then show ?thesis using True init by (simp add: retried_at_most_once_def)
next
  case False
  then have "retry_inv initialWords (currentIndex s0) s0" using init by (rule retry_inv_init)
  moreover obtain s' completed where r: "run step es s0 = (s', completed)"
    by (cases "run step es s0")
  ultimately have "retry_inv initialWords (passed s' completed) s'"
    using step by (rule run_retry_inv [rotated])
  then show ?thesis using r by (simp add: retry_inv_at_most_once)
qed

subsection \<open>The retry policy\<close>

lemma retry_inserted_handleNext:
  "isCorrect s \<noteq> Some True \<Longrightarrow> retryCount (words s ! currentIndex s) = 0 \<Longrightarrow>
   words (fst (handleNext s)) = retry_inserted s"
  by (simp add: handleNext_words retry_inserted_def)

lemma not_inserted_handleNext:
  "isCorrect s = Some True \<or> retryCount (words s ! currentIndex s) \<noteq> 0 \<Longrightarrow>
   words (fst (handleNext s)) = words s"
  by (auto simp: handleNext_words)

lemma ListenSpell_step_words:
  assumes "currentIndex s < length (words s)"
  shows "showAnswer s \<Longrightarrow> words (fst (ListenSpell_step P Next s)) = words (fst (handleNext s))"
    and "\<not> showAnswer s \<Longrightarrow> words (fst (ListenSpell_step P Skip s)) = words (fst (handleNext s))"
  using assms
  by (auto simp: ListenSpell_timer_effect_def ListenSpell_handleSkip_def Let_def
      split: prod.splits if_splits)

lemma FillBlank_step_words:
  assumes "currentIndex s < length (words s)"
  shows "showAnswer s \<Longrightarrow> words (fst (FillBlank_step P Next s)) = words (fst (handleNext s))"
    and "\<not> showAnswer s \<Longrightarrow> words (fst (FillBlank_step P Skip s)) = words (fst (handleNext s))"
  using assms
  by (auto simp: FillBlank_handleSkip_def Let_def split: prod.splits if_splits)

lemma LetterPuzzle_step_words:
  assumes "currentIndex s < length (words s)"
  shows "showAnswer s \<Longrightarrow> words (fst (LetterPuzzle_step P Next s)) = words (fst (handleNext s))"
    and "\<not> showAnswer s \<Longrightarrow> words (fst (LetterPuzzle_step P Skip s)) = words (fst (handleNext s))"
  using assms
  by (auto simp: LetterPuzzle_after_def LetterPuzzle_puzzle_effect_def
      LetterPuzzle_handleSkip_def Let_def split: prod.splits if_splits)

lemma moves_words_kept:
  assumes "moves_like_handleNext s s' completed"
    and "isCorrect s = Some True \<or> retryCount (words s ! currentIndex s) \<noteq> 0"
  shows "words s' = words s"
  using assms not_inserted_handleNext [of s] by (auto simp: moves_like_handleNext_def)

text \<open>
  C1. In each of the three components, advancing from a word that was not answered
  correctly and has \<open>retryCount = 0\<close> puts a copy of it with \<open>retryCount = 1\<close> at index
  \<open>min (currentIndex + 3) (length words)\<close> of the working sequence: \<open>handleNext\<close> does
  so, and so does the \<open>Next\<close> event after a wrong answer and the \<open>Skip\<close> event before an
  answer in \<^verbatim>\<open>ListenSpell\<close>, \<^verbatim>\<open>FillBlank\<close> and \<^verbatim>\<open>LetterPuzzle\<close>. No event changes the
  working sequence while the current word has \<open>retryCount = 1\<close>, and \<open>Next\<close> after a
  correct answer changes nothing either. So in every session each word is retried at
  most once: whatever the events, the working sequence holds the session's words in
  their order, and beside them only copies with \<open>retryCount = 1\<close>, of no word more than
  the session's list has entries of it.
\<close>

theorem retry_insertion_policy:
  fixes s :: "'a session_scheme" and sl :: ListenSpell and sf :: session and sp :: LetterPuzzle
  shows
  "(currentIndex s < length (words s) \<and> isCorrect s \<noteq> Some True
      \<and> retryCount (words s ! currentIndex s) = 0 \<longrightarrow>
      words (fst (handleNext s))
        = take (min (currentIndex s + 3) (length (words s))) (words s)
          @ [(words s ! currentIndex s)\<lparr>retryCount := 1\<rparr>]
          @ drop (min (currentIndex s + 3) (length (words s))) (words s)
      \<and> words (fst (handleNext s)) ! min (currentIndex s + 3) (length (words s))
        = (words s ! currentIndex s)\<lparr>retryCount := 1\<rparr>
      \<and> length (words (fst (handleNext s))) = Suc (length (words s)))
   \<and> (retryCount (words s ! currentIndex s) \<noteq> 0 \<longrightarrow> words (fst (handleNext s)) = words s)
   \<and> words (fst (ListenSpell_handleSkip sl)) = words (fst (handleNext sl))
   \<and> words (fst (FillBlank_handleSkip sf)) = words (fst (handleNext sf))
   \<and> words (fst (LetterPuzzle_handleSkip sp)) = words (fst (handleNext sp))
   \<and> retried_at_most_once initialWords
        (words (fst (run (ListenSpell_step P) es (ListenSpell_init initialWords))))
   \<and> retried_at_most_once initialWords
        (words (fst (run (FillBlank_step P) es (FillBlank_init initialWords))))
   \<and> retried_at_most_once initialWords
        (words (fst (run (LetterPuzzle_step P) es (LetterPuzzle_init initialWords))))
   \<and> (currentIndex sl < length (words sl) \<and> isCorrect sl \<noteq> Some True
        \<and> retryCount (words sl ! currentIndex sl) = 0 \<longrightarrow>
        (showAnswer sl \<longrightarrow> words (fst (ListenSpell_step P Next sl)) = retry_inserted sl)
        \<and> (\<not> showAnswer sl \<longrightarrow> words (fst (ListenSpell_step P Skip sl)) = retry_inserted sl))
   \<and> (currentIndex sf < length (words sf) \<and> isCorrect sf \<noteq> Some True
        \<and> retryCount (words sf ! currentIndex sf) = 0 \<longrightarrow>
        (showAnswer sf \<longrightarrow> words (fst (FillBlank_step P Next sf)) = retry_inserted sf)
        \<and> (\<not> showAnswer sf \<longrightarrow> words (fst (FillBlank_step P Skip sf)) = retry_inserted sf))
   \<and> (currentIndex sp < length (words sp) \<and> isCorrect sp \<noteq> Some True
        \<and> retryCount (words sp ! currentIndex sp) = 0 \<longrightarrow>
        (showAnswer sp \<longrightarrow> words (fst (LetterPuzzle_step P Next sp)) = retry_inserted sp)
        \<and> (\<not> showAnswer sp \<longrightarrow> words (fst (LetterPuzzle_step P Skip sp)) = retry_inserted sp))
   \<and> (isCorrect sl = Some True \<or> retryCount (words sl ! currentIndex sl) \<noteq> 0 \<longrightarrow>
        words (fst (ListenSpell_step P e sl)) = words sl)
   \<and> (isCorrect sf = Some True \<or> retryCount (words sf ! currentIndex sf) \<noteq> 0 \<longrightarrow>
        words (fst (FillBlank_step P e sf)) = words sf)
   \<and> (isCorrect sp = Some True \<or> retryCount (words sp ! currentIndex sp) \<noteq> 0 \<longrightarrow>
        words (fst (LetterPuzzle_step P e sp)) = words sp)"
proof -
  let ?p = "min (currentIndex s + 3) (length (words s))"
  have ins: "words (fst (handleNext s))
        = take ?p (words s) @ [(words s ! currentIndex s)\<lparr>retryCount := 1\<rparr>] @ drop ?p (words s)
      \<and> words (fst (handleNext s)) ! ?p = (words s ! currentIndex s)\<lparr>retryCount := 1\<rparr>
      \<and> length (words (fst (handleNext s))) = Suc (length (words s))"
    if "isCorrect s \<noteq> Some True" "retryCount (words s ! currentIndex s) = 0"
  proof -
    have w: "words (fst (handleNext s))
        = take ?p (words s) @ [(words s ! currentIndex s)\<lparr>retryCount := 1\<rparr>] @ drop ?p (words s)"
      using that by (simp add: handleNext_words)
    have "length (take ?p (words s)) = ?p" by simp
    then have "(take ?p (words s) @ [(words s ! currentIndex s)\<lparr>retryCount := 1\<rparr>] @ drop ?p (words s)) ! ?p
        = (words s ! currentIndex s)\<lparr>retryCount := 1\<rparr>"
      by (metis append_Cons nth_append_length)
    moreover have "length (take ?p (words s) @ [(words s ! currentIndex s)\<lparr>retryCount := 1\<rparr>]
        @ drop ?p (words s)) = Suc (length (words s))"
      by simp
    ultimately show ?thesis using w by simp
  qed
  have no: "words (fst (handleNext s)) = words s" if "retryCount (words s ! currentIndex s) \<noteq> 0"
    using that by (simp add: handleNext_words)
  have skl: "words (fst (ListenSpell_handleSkip sl)) = words (fst (handleNext sl))"
    by (simp add: ListenSpell_handleSkip_def Let_def split: prod.splits)
  have skf: "words (fst (FillBlank_handleSkip sf)) = words (fst (handleNext sf))"
    by (simp add: FillBlank_handleSkip_def Let_def split: prod.splits)
  have skp: "words (fst (LetterPuzzle_handleSkip sp)) = words (fst (handleNext sp))"
    by (simp add: LetterPuzzle_handleSkip_def Let_def split: prod.splits)
  have l: "retried_at_most_once initialWords
      (words (fst (run (ListenSpell_step P) es (ListenSpell_init initialWords))))"
    by (rule session_at_most_once [OF ListenSpell_step_moves])
      (simp_all add: ListenSpell_init_def)
  have f: "retried_at_most_once initialWords
      (words (fst (run (FillBlank_step P) es (FillBlank_init initialWords))))"
    by (rule session_at_most_once [OF FillBlank_step_moves])
      (simp_all add: FillBlank_init_def)
  have p: "retried_at_most_once initialWords
      (words (fst (run (LetterPuzzle_step P) es (LetterPuzzle_init initialWords))))"
    by (rule session_at_most_once [OF LetterPuzzle_step_moves])
      (simp_all add: LetterPuzzle_init_def LetterPuzzle_puzzle_effect_def)
  have nl: "(showAnswer sl \<longrightarrow> words (fst (ListenSpell_step P Next sl)) = retry_inserted sl)
      \<and> (\<not> showAnswer sl \<longrightarrow> words (fst (ListenSpell_step P Skip sl)) = retry_inserted sl)"
    if "currentIndex sl < length (words sl)" "isCorrect sl \<noteq> Some True"
      "retryCount (words sl ! currentIndex sl) = 0"
    using ListenSpell_step_words [OF that(1), of P] retry_inserted_handleNext [OF that(2,3)]
    by simp
  have nf: "(showAnswer sf \<longrightarrow> words (fst (FillBlank_step P Next sf)) = retry_inserted sf)
      \<and> (\<not> showAnswer sf \<longrightarrow> words (fst (FillBlank_step P Skip sf)) = retry_inserted sf)"
    if "currentIndex sf < length (words sf)" "isCorrect sf \<noteq> Some True"
      "retryCount (words sf ! currentIndex sf) = 0"
    using FillBlank_step_words [OF that(1), of P] retry_inserted_handleNext [OF that(2,3)]
    by simp
  have np: "(showAnswer sp \<longrightarrow> words (fst (LetterPuzzle_step P Next sp)) = retry_inserted sp)
      \<and> (\<not> showAnswer sp \<longrightarrow> words (fst (LetterPuzzle_step P Skip sp)) = retry_inserted sp)"
    if "currentIndex sp < length (words sp)" "isCorrect sp \<noteq> Some True"
      "retryCount (words sp ! currentIndex sp) = 0"
    using LetterPuzzle_step_words [OF that(1), of P] retry_inserted_handleNext [OF that(2,3)]
    by simp
  have kl: "words (fst (ListenSpell_step P e sl)) = words sl"
    if "isCorrect sl = Some True \<or> retryCount (words sl ! currentIndex sl) \<noteq> 0"
  proof -
    have "moves_like_handleNext sl (fst (ListenSpell_step P e sl)) (snd (ListenSpell_step P e sl))"
      by (rule ListenSpell_step_moves) (rule surjective_pairing)
    then show ?thesis using that by (rule moves_words_kept)
  qed
  have kf: "words (fst (FillBlank_step P e sf)) = words sf"
    if "isCorrect sf = Some True \<or> retryCount (words sf ! currentIndex sf) \<noteq> 0"
  proof -
    have "moves_like_handleNext sf (fst (FillBlank_step P e sf)) (snd (FillBlank_step P e sf))"
      by (rule FillBlank_step_moves) (rule surjective_pairing)
    then show ?thesis using that by (rule moves_words_kept)
  qed
  have kp: "words (fst (LetterPuzzle_step P e sp)) = words sp"
    if "isCorrect sp = Some True \<or> retryCount (words sp ! currentIndex sp) \<noteq> 0"
  proof -
    have "moves_like_handleNext sp (fst (LetterPuzzle_step P e sp)) (snd (LetterPuzzle_step P e sp))"
      by (rule LetterPuzzle_step_moves) (rule surjective_pairing)
    then show ?thesis using that by (rule moves_words_kept)
  qed
  have old: "(currentIndex s < length (words s) \<and> isCorrect s \<noteq> Some True
        \<and> retryCount (words s ! currentIndex s) = 0 \<longrightarrow>
        words (fst (handleNext s))
          = take ?p (words s) @ [(words s ! currentIndex s)\<lparr>retryCount := 1\<rparr>] @ drop ?p (words s)
        \<and> words (fst (handleNext s)) ! ?p = (words s ! currentIndex s)\<lparr>retryCount := 1\<rparr>
        \<and> length (words (fst (handleNext s))) = Suc (length (words s)))
     \<and> (retryCount (words s ! currentIndex s) \<noteq> 0 \<longrightarrow> words (fst (handleNext s)) = words s)"
    using ins no by blast
  note o1 = old [THEN conjunct1] and o2 = old [THEN conjunct2]
  have NL: "currentIndex sl < length (words sl) \<and> isCorrect sl \<noteq> Some True
        \<and> retryCount (words sl ! currentIndex sl) = 0 \<longrightarrow>
        (showAnswer sl \<longrightarrow> words (fst (ListenSpell_step P Next sl)) = retry_inserted sl)
        \<and> (\<not> showAnswer sl \<longrightarrow> words (fst (ListenSpell_step P Skip sl)) = retry_inserted sl)"
    using nl by blast
  have NF: "currentIndex sf < length (words sf) \<and> isCorrect sf \<noteq> Some True
        \<and> retryCount (words sf ! currentIndex sf) = 0 \<longrightarrow>
        (showAnswer sf \<longrightarrow> words (fst (FillBlank_step P Next sf)) = retry_inserted sf)
        \<and> (\<not> showAnswer sf \<longrightarrow> words (fst (FillBlank_step P Skip sf)) = retry_inserted sf)"
    using nf by blast
  have NP: "currentIndex sp < length (words sp) \<and> isCorrect sp \<noteq> Some True
        \<and> retryCount (words sp ! currentIndex sp) = 0 \<longrightarrow>
        (showAnswer sp \<longrightarrow> words (fst (LetterPuzzle_step P Next sp)) = retry_inserted sp)
        \<and> (\<not> showAnswer sp \<longrightarrow> words (fst (LetterPuzzle_step P Skip sp)) = retry_inserted sp)"
    using np by blast
  have KL: "isCorrect sl = Some True \<or> retryCount (words sl ! currentIndex sl) \<noteq> 0 \<longrightarrow>
        words (fst (ListenSpell_step P e sl)) = words sl"
    using kl by blast
  have KF: "isCorrect sf = Some True \<or> retryCount (words sf ! currentIndex sf) \<noteq> 0 \<longrightarrow>
        words (fst (FillBlank_step P e sf)) = words sf"
    using kf by blast
  have KP: "isCorrect sp = Some True \<or> retryCount (words sp ! currentIndex sp) \<noteq> 0 \<longrightarrow>
        words (fst (LetterPuzzle_step P e sp)) = words sp"
    using kp by blast
  show ?thesis
    by (intro conjI) (rule o1 o2 skl skf skp l f p NL NF NP KL KF KP)+
qed

theorem retry_insertion_policy_witness:
  "words (fst (run (ListenSpell_step ascii_strings) [Input ''aple'', Submit, Next]
       (ListenSpell_init four_words)))
     = map withRetryCount [entry ''apple'', entry ''bread'', entry ''cat'']
       @ [(withRetryCount (entry ''apple''))\<lparr>retryCount := 1\<rparr>, withRetryCount (entry ''door'')]
   \<and> map retryCount (words (fst (run (ListenSpell_step ascii_strings)
         [Input ''aple'', Submit, Next, Input ''bread'', Submit, Next, Input '' Cat'', Submit, Next,
          Input ''appel'', Submit, Next]
         (ListenSpell_init four_words))))
     = [0, 0, 0, 1, 0]
   \<and> retried_at_most_once four_words
        (words (fst (run (ListenSpell_step ascii_strings)
          [Input ''aple'', Submit, Next, Input ''bread'', Submit, Next, Input '' Cat'', Submit, Next,
           Input ''appel'', Submit, Next]
          (ListenSpell_init four_words))))
   \<and> words (fst (FillBlank_step ascii_strings Skip (FillBlank_init four_words)))
     = map withRetryCount [entry ''apple'', entry ''bread'', entry ''cat'']
       @ [(withRetryCount (entry ''apple''))\<lparr>retryCount := 1\<rparr>, withRetryCount (entry ''door'')]
   \<and> words (fst (LetterPuzzle_step ascii_strings Skip (LetterPuzzle_init four_words)))
     = map withRetryCount [entry ''apple'', entry ''bread'', entry ''cat'']
       @ [(withRetryCount (entry ''apple''))\<lparr>retryCount := 1\<rparr>, withRetryCount (entry ''door'')]"
proof -
  let ?f = "FillBlank_init four_words" and ?l = "LetterPuzzle_init four_words"
  have pf: "currentIndex ?f < length (words ?f) \<and> isCorrect ?f \<noteq> Some True
      \<and> retryCount (words ?f ! currentIndex ?f) = 0" "\<not> showAnswer ?f"
    by code_simp+
  have pl: "currentIndex ?l < length (words ?l) \<and> isCorrect ?l \<noteq> Some True
      \<and> retryCount (words ?l ! currentIndex ?l) = 0" "\<not> showAnswer ?l"
    by code_simp+
  have rf: "retry_inserted ?f = map withRetryCount [entry ''apple'', entry ''bread'', entry ''cat'']
      @ [(withRetryCount (entry ''apple''))\<lparr>retryCount := 1\<rparr>, withRetryCount (entry ''door'')]"
    by code_simp
  have rl: "retry_inserted ?l = map withRetryCount [entry ''apple'', entry ''bread'', entry ''cat'']
      @ [(withRetryCount (entry ''apple''))\<lparr>retryCount := 1\<rparr>, withRetryCount (entry ''door'')]"
    by code_simp
  let ?s = "fst (run (ListenSpell_step ascii_strings) [Input ''aple'', Submit]
    (ListenSpell_init four_words))"
  let ?es = "[Input ''aple'', Submit, Next, Input ''bread'', Submit, Next, Input '' Cat'', Submit,
    Next, Input ''appel'', Submit, Next]"
  have pre: "currentIndex ?s < length (words ?s) \<and> isCorrect ?s \<noteq> Some True
      \<and> retryCount (words ?s ! currentIndex ?s) = 0"
    by code_simp
  have list: "take (min (currentIndex ?s + 3) (length (words ?s))) (words ?s)
      @ [(words ?s ! currentIndex ?s)\<lparr>retryCount := 1\<rparr>]
      @ drop (min (currentIndex ?s + 3) (length (words ?s))) (words ?s)
      = map withRetryCount [entry ''apple'', entry ''bread'', entry ''cat'']
        @ [(withRetryCount (entry ''apple''))\<lparr>retryCount := 1\<rparr>, withRetryCount (entry ''door'')]"
    by code_simp
  have same: "words (fst (run (ListenSpell_step ascii_strings) [Input ''aple'', Submit, Next]
      (ListenSpell_init four_words))) = words (fst (handleNext ?s))"
    by code_simp
  have twice: "map retryCount (words (fst (run (ListenSpell_step ascii_strings) ?es
      (ListenSpell_init four_words)))) = [0, 0, 0, 1, 0]"
    by code_simp
  note policy = retry_insertion_policy [where s = ?s and initialWords = four_words
      and P = ascii_strings and es = ?es and sf = ?f and sp = ?l]
  from policy pf have "words (fst (FillBlank_step ascii_strings Skip ?f)) = retry_inserted ?f"
    by blast
  then have 3: "words (fst (FillBlank_step ascii_strings Skip ?f))
      = map withRetryCount [entry ''apple'', entry ''bread'', entry ''cat'']
        @ [(withRetryCount (entry ''apple''))\<lparr>retryCount := 1\<rparr>, withRetryCount (entry ''door'')]"
    by (simp only: rf)
  from policy pl have "words (fst (LetterPuzzle_step ascii_strings Skip ?l)) = retry_inserted ?l"
    by blast
  then have 4: "words (fst (LetterPuzzle_step ascii_strings Skip ?l))
      = map withRetryCount [entry ''apple'', entry ''bread'', entry ''cat'']
        @ [(withRetryCount (entry ''apple''))\<lparr>retryCount := 1\<rparr>, withRetryCount (entry ''door'')]"
    by (simp only: rl)
  from policy pre have "words (fst (handleNext ?s))
      = take (min (currentIndex ?s + 3) (length (words ?s))) (words ?s)
        @ [(words ?s ! currentIndex ?s)\<lparr>retryCount := 1\<rparr>]
        @ drop (min (currentIndex ?s + 3) (length (words ?s))) (words ?s)"
    by blast
  then have 1: "words (fst (run (ListenSpell_step ascii_strings) [Input ''aple'', Submit, Next]
      (ListenSpell_init four_words)))
      = map withRetryCount [entry ''apple'', entry ''bread'', entry ''cat'']
        @ [(withRetryCount (entry ''apple''))\<lparr>retryCount := 1\<rparr>, withRetryCount (entry ''door'')]"
    by (simp only: same list)
  from policy have 2: "retried_at_most_once four_words
      (words (fst (run (ListenSpell_step ascii_strings) ?es (ListenSpell_init four_words))))"
    by blast
  show ?thesis using 1 twice 2 3 4 by blast
qed

subsection \<open>Completion\<close>

lemma final_first_miss_handleNext:
  assumes "final_first_miss s"
  shows "handleNext s
      = (s\<lparr>words := words s @ [(words s ! currentIndex s)\<lparr>retryCount := 1\<rparr>]\<rparr>, Some (results s))"
proof -
  from assms have ne: "words s \<noteq> []" and ci: "currentIndex s = length (words s) - 1"
    and rc: "retryCount (words s ! currentIndex s) = 0" and ic: "isCorrect s \<noteq> Some True"
    unfolding final_first_miss_def by blast+
  from ne ci have m: "min (currentIndex s + 3) (length (words s)) = length (words s)"
    by (cases "words s") simp_all
  from ci have last: "\<not> currentIndex s < length (words s) - 1" by simp
  show ?thesis
    unfolding handleNext_def Let_def m using rc ic last by simp
qed

text \<open>
  C10. Where the word in the last position of the working sequence is on its first
  attempt and is answered wrongly or skipped, advancing appends the copy with
  \<open>retryCount = 1\<close> and calls \<^verbatim>\<open>onComplete\<close> in the same step, in each of the three
  components: the index stays on the last attempted word, the session ends whatever
  events would follow, and the copy is never shown. The results passed on are those of
  the render, so after a wrong answer they hold the one entry of that attempt and
  nothing for the copy.
\<close>

theorem final_first_miss_completes:
  fixes s :: "'a session_scheme" and sl :: ListenSpell and sf :: session and sp :: LetterPuzzle
  shows
  "(final_first_miss s \<longrightarrow>
      handleNext s
        = (s\<lparr>words := words s @ [(words s ! currentIndex s)\<lparr>retryCount := 1\<rparr>]\<rparr>,
           Some (results s)))
   \<and> (final_first_miss sl \<and> showAnswer sl \<longrightarrow>
        run (ListenSpell_step P) (Next # es) sl
          = (sl\<lparr>words := words sl @ [(words sl ! currentIndex sl)\<lparr>retryCount := 1\<rparr>]\<rparr>,
             Some (results sl)))
   \<and> (final_first_miss sf \<and> showAnswer sf \<longrightarrow>
        run (FillBlank_step P) (Next # es) sf
          = (sf\<lparr>words := words sf @ [(words sf ! currentIndex sf)\<lparr>retryCount := 1\<rparr>]\<rparr>,
             Some (results sf)))
   \<and> (final_first_miss sp \<and> showAnswer sp \<longrightarrow>
        run (LetterPuzzle_step P) (Next # es) sp
          = (sp\<lparr>words := words sp @ [(words sp ! currentIndex sp)\<lparr>retryCount := 1\<rparr>]\<rparr>,
             Some (results sp)))
   \<and> (final_first_miss sl \<and> \<not> showAnswer sl \<longrightarrow>
        words (fst (run (ListenSpell_step P) (Skip # es) sl))
          = words sl @ [(words sl ! currentIndex sl)\<lparr>retryCount := 1\<rparr>]
        \<and> currentIndex (fst (run (ListenSpell_step P) (Skip # es) sl)) = currentIndex sl
        \<and> snd (run (ListenSpell_step P) (Skip # es) sl) = Some (results sl))
   \<and> (final_first_miss sf \<and> \<not> showAnswer sf \<longrightarrow>
        words (fst (run (FillBlank_step P) (Skip # es) sf))
          = words sf @ [(words sf ! currentIndex sf)\<lparr>retryCount := 1\<rparr>]
        \<and> currentIndex (fst (run (FillBlank_step P) (Skip # es) sf)) = currentIndex sf
        \<and> snd (run (FillBlank_step P) (Skip # es) sf) = Some (results sf))
   \<and> (final_first_miss sp \<and> \<not> showAnswer sp \<longrightarrow>
        words (fst (run (LetterPuzzle_step P) (Skip # es) sp))
          = words sp @ [(words sp ! currentIndex sp)\<lparr>retryCount := 1\<rparr>]
        \<and> currentIndex (fst (run (LetterPuzzle_step P) (Skip # es) sp)) = currentIndex sp
        \<and> snd (run (LetterPuzzle_step P) (Skip # es) sp) = Some (results sp))"
proof -
  have cur: "currentIndex x < length (words x)" if "final_first_miss x"
    for x :: "'b session_scheme"
    using that by (cases "words x") (simp_all add: final_first_miss_def)
  have 1: "run (ListenSpell_step P) (Next # es) sl
      = (sl\<lparr>words := words sl @ [(words sl ! currentIndex sl)\<lparr>retryCount := 1\<rparr>]\<rparr>,
         Some (results sl))"
    if "final_first_miss sl" "showAnswer sl"
    using that cur [OF that(1)] final_first_miss_handleNext [OF that(1)]
    by (simp add: ListenSpell_timer_effect_def)
  have 2: "run (FillBlank_step P) (Next # es) sf
      = (sf\<lparr>words := words sf @ [(words sf ! currentIndex sf)\<lparr>retryCount := 1\<rparr>]\<rparr>,
         Some (results sf))"
    if "final_first_miss sf" "showAnswer sf"
    using that cur [OF that(1)] final_first_miss_handleNext [OF that(1)] by simp
  have 3: "run (LetterPuzzle_step P) (Next # es) sp
      = (sp\<lparr>words := words sp @ [(words sp ! currentIndex sp)\<lparr>retryCount := 1\<rparr>]\<rparr>,
         Some (results sp))"
    if "final_first_miss sp" "showAnswer sp"
    using that cur [OF that(1)] final_first_miss_handleNext [OF that(1)]
    by (simp add: LetterPuzzle_after_def)
  have 4: "words (fst (run (ListenSpell_step P) (Skip # es) sl))
        = words sl @ [(words sl ! currentIndex sl)\<lparr>retryCount := 1\<rparr>]
      \<and> currentIndex (fst (run (ListenSpell_step P) (Skip # es) sl)) = currentIndex sl
      \<and> snd (run (ListenSpell_step P) (Skip # es) sl) = Some (results sl)"
    if "final_first_miss sl" "\<not> showAnswer sl"
    using that cur [OF that(1)] final_first_miss_handleNext [OF that(1)]
    by (simp add: ListenSpell_timer_effect_def ListenSpell_handleSkip_def Let_def)
  have 5: "words (fst (run (FillBlank_step P) (Skip # es) sf))
        = words sf @ [(words sf ! currentIndex sf)\<lparr>retryCount := 1\<rparr>]
      \<and> currentIndex (fst (run (FillBlank_step P) (Skip # es) sf)) = currentIndex sf
      \<and> snd (run (FillBlank_step P) (Skip # es) sf) = Some (results sf)"
    if "final_first_miss sf" "\<not> showAnswer sf"
    using that cur [OF that(1)] final_first_miss_handleNext [OF that(1)]
    by (simp add: FillBlank_handleSkip_def Let_def)
  have 6: "words (fst (run (LetterPuzzle_step P) (Skip # es) sp))
        = words sp @ [(words sp ! currentIndex sp)\<lparr>retryCount := 1\<rparr>]
      \<and> currentIndex (fst (run (LetterPuzzle_step P) (Skip # es) sp)) = currentIndex sp
      \<and> snd (run (LetterPuzzle_step P) (Skip # es) sp) = Some (results sp)"
    if "final_first_miss sp" "\<not> showAnswer sp"
    using that cur [OF that(1)] final_first_miss_handleNext [OF that(1)]
    by (simp add: LetterPuzzle_after_def LetterPuzzle_handleSkip_def Let_def)
  show ?thesis using final_first_miss_handleNext [of s] 1 2 3 4 5 6 by blast
qed

theorem final_first_miss_completes_witness:
  "final_first_miss (fst (run (FillBlank_step ascii_strings) [Input ''dog'', Submit]
       (FillBlank_init [entry ''cat''])))
   \<and> words (fst (run (FillBlank_step ascii_strings) [Input ''dog'', Submit, Next, Input ''cat'', Submit]
         (FillBlank_init [entry ''cat''])))
       = [withRetryCount (entry ''cat''), (withRetryCount (entry ''cat''))\<lparr>retryCount := 1\<rparr>]
   \<and> map r_userAnswer (the (snd (run (FillBlank_step ascii_strings)
         [Input ''dog'', Submit, Next, Input ''cat'', Submit] (FillBlank_init [entry ''cat''])))) = [''dog'']"
proof -
  let ?s = "fst (run (FillBlank_step ascii_strings) [Input ''dog'', Submit] (FillBlank_init [entry ''cat'']))"
  have pre: "final_first_miss ?s \<and> showAnswer ?s"
    unfolding final_first_miss_def by code_simp
  have split: "run (FillBlank_step ascii_strings) [Input ''dog'', Submit, Next, Input ''cat'', Submit]
      (FillBlank_init [entry ''cat''])
      = run (FillBlank_step ascii_strings) (Next # [Input ''cat'', Submit]) ?s"
    by code_simp
  have vals: "words ?s @ [(words ?s ! currentIndex ?s)\<lparr>retryCount := 1\<rparr>]
      = [withRetryCount (entry ''cat''), (withRetryCount (entry ''cat''))\<lparr>retryCount := 1\<rparr>]
      \<and> map r_userAnswer (results ?s) = [''dog'']"
    by code_simp
  from final_first_miss_completes [where sf = ?s and P = ascii_strings
      and es = "[Input ''cat'', Submit]"] pre
  have "run (FillBlank_step ascii_strings) (Next # [Input ''cat'', Submit]) ?s
      = (?s\<lparr>words := words ?s @ [(words ?s ! currentIndex ?s)\<lparr>retryCount := 1\<rparr>]\<rparr>,
         Some (results ?s))"
    by blast
  then have r: "words (fst (run (FillBlank_step ascii_strings) (Next # [Input ''cat'', Submit]) ?s))
        = words ?s @ [(words ?s ! currentIndex ?s)\<lparr>retryCount := 1\<rparr>]
      \<and> the (snd (run (FillBlank_step ascii_strings) (Next # [Input ''cat'', Submit]) ?s))
        = results ?s"
  proof -
    assume run: "run (FillBlank_step ascii_strings) (Next # [Input ''cat'', Submit]) ?s
      = (?s\<lparr>words := words ?s @ [(words ?s ! currentIndex ?s)\<lparr>retryCount := 1\<rparr>]\<rparr>,
         Some (results ?s))"
    have sel: "words (x\<lparr>words := v\<rparr>) = v" for x :: session and v
      by simp
    show ?thesis by (simp only: run fst_conv snd_conv sel option.sel)
  qed
  from pre have 1: "final_first_miss ?s" by (rule conjunct1)
  from r vals have 2: "words (fst (run (FillBlank_step ascii_strings) (Next # [Input ''cat'', Submit]) ?s))
      = [withRetryCount (entry ''cat''), (withRetryCount (entry ''cat''))\<lparr>retryCount := 1\<rparr>]"
    by (simp only:)
  from r vals have 3: "map r_userAnswer
      (the (snd (run (FillBlank_step ascii_strings) (Next # [Input ''cat'', Submit]) ?s))) = [''dog'']"
    by (simp only:)
  show ?thesis unfolding split using 1 2 3 by blast
qed

text \<open>
  C2 (where the code departs from it). A component that stands on the last index and has
  not shown the answer yet calls \<^verbatim>\<open>onComplete\<close> from \<^verbatim>\<open>handleSkip\<close> with the results of
  the render: the entry for the skipped word is requested for the state, which grows by
  one, and is not in what the callback receives. After an answer, \<^verbatim>\<open>handleSubmit\<close> has
  put the entry into the state before \<^verbatim>\<open>handleNext\<close> runs, and the callback receives it.
\<close>

theorem skip_on_last_word_not_delivered:
  fixes sl :: ListenSpell and sf :: session and sp :: LetterPuzzle
  shows
  "(currentIndex sl < length (words sl) \<and> \<not> currentIndex sl < length (words sl) - 1
      \<and> \<not> showAnswer sl \<longrightarrow>
      snd (ListenSpell_step P Skip sl) = Some (results sl)
      \<and> length (results (fst (ListenSpell_step P Skip sl))) = Suc (length (results sl)))
   \<and> (currentIndex sf < length (words sf) \<and> \<not> currentIndex sf < length (words sf) - 1
      \<and> \<not> showAnswer sf \<longrightarrow>
      snd (FillBlank_step P Skip sf) = Some (results sf)
      \<and> length (results (fst (FillBlank_step P Skip sf))) = Suc (length (results sf)))
   \<and> (currentIndex sp < length (words sp) \<and> \<not> currentIndex sp < length (words sp) - 1
      \<and> \<not> showAnswer sp \<longrightarrow>
      snd (LetterPuzzle_step P Skip sp) = Some (results sp)
      \<and> length (results (fst (LetterPuzzle_step P Skip sp))) = Suc (length (results sp)))
   \<and> (currentIndex sf < length (words sf) \<and> \<not> currentIndex sf < length (words sf) - 1
      \<and> \<not> showAnswer sf \<and> userInput sf \<noteq> [] \<longrightarrow>
      length (the (snd (run (FillBlank_step P) [Submit, Next] sf))) = Suc (length (results sf)))"
  by (simp add: ListenSpell_handleSkip_def FillBlank_handleSkip_def LetterPuzzle_handleSkip_def
      ListenSpell_timer_effect_def LetterPuzzle_after_def FillBlank_handleSubmit_def
      handleNext_def Let_def)

theorem skip_on_last_word_not_delivered_witness:
  "snd (ListenSpell_step ascii_strings Skip (ListenSpell_init [entry ''cat''])) = Some []
   \<and> snd (FillBlank_step ascii_strings Skip (FillBlank_init [entry ''cat''])) = Some []
   \<and> snd (LetterPuzzle_step ascii_strings Skip (LetterPuzzle_init [entry ''cat''])) = Some []
   \<and> length (results (fst (FillBlank_step ascii_strings Skip (FillBlank_init [entry ''cat''])))) = 1"
proof -
  have l: "currentIndex (ListenSpell_init [entry ''cat'']) < length (words (ListenSpell_init [entry ''cat'']))
      \<and> \<not> currentIndex (ListenSpell_init [entry ''cat'']) < length (words (ListenSpell_init [entry ''cat''])) - 1
      \<and> \<not> showAnswer (ListenSpell_init [entry ''cat'']) \<and> results (ListenSpell_init [entry ''cat'']) = []"
    by (simp add: ListenSpell_init_def)
  have f: "currentIndex (FillBlank_init [entry ''cat'']) < length (words (FillBlank_init [entry ''cat'']))
      \<and> \<not> currentIndex (FillBlank_init [entry ''cat'']) < length (words (FillBlank_init [entry ''cat''])) - 1
      \<and> \<not> showAnswer (FillBlank_init [entry ''cat'']) \<and> results (FillBlank_init [entry ''cat'']) = []"
    by (simp add: FillBlank_init_def)
  have p: "currentIndex (LetterPuzzle_init [entry ''cat'']) < length (words (LetterPuzzle_init [entry ''cat'']))
      \<and> \<not> currentIndex (LetterPuzzle_init [entry ''cat'']) < length (words (LetterPuzzle_init [entry ''cat''])) - 1
      \<and> \<not> showAnswer (LetterPuzzle_init [entry ''cat'']) \<and> results (LetterPuzzle_init [entry ''cat'']) = []"
    by (simp add: LetterPuzzle_init_def LetterPuzzle_puzzle_effect_def)
  note t = skip_on_last_word_not_delivered [where sl = "ListenSpell_init [entry ''cat'']"
      and P = ascii_strings and sf = "FillBlank_init [entry ''cat'']"
      and sp = "LetterPuzzle_init [entry ''cat'']"]
  from t l have 1: "snd (ListenSpell_step ascii_strings Skip (ListenSpell_init [entry ''cat''])) = Some []"
    by metis
  from t f have 2: "snd (FillBlank_step ascii_strings Skip (FillBlank_init [entry ''cat''])) = Some []
      \<and> length (results (fst (FillBlank_step ascii_strings Skip (FillBlank_init [entry ''cat''])))) = Suc 0"
    by (metis list.size(3))
  from t p have 3: "snd (LetterPuzzle_step ascii_strings Skip (LetterPuzzle_init [entry ''cat''])) = Some []"
    by metis
  show ?thesis using 1 2 3 by simp
qed

section \<open>Properties of the speech service\<close>

lemma caught_fields:
  "isSpeaking (caught s req message) = isSpeaking s
   \<and> calls (caught s req message) = calls s
   \<and> console (caught s req message)
       = console s @ [''Dictionary audio failed, falling back to Web Speech API: '' @ message]
         @ (if audioSource s \<noteq> dictionary \<and> \<not> isSupported s
            then [''Speech synthesis is not supported in this browser''] else [])
   \<and> spoken (caught s req message)
       = (if audioSource s \<noteq> dictionary \<and> isSupported s then spoken s @ [req] else spoken s)"
  by (cases req) (simp add: caught_def speakWithWebSpeech_def Let_def)

lemma reject_isSpeaking: "isSpeaking (reject s k message) = isSpeaking s"
  by (simp add: reject_def caught_fields settle_def)

lemma clearTimeout_isSpeaking: "isSpeaking (clearTimeout s k) = isSpeaking s"
  by (simp add: clearTimeout_def)

lemma on_event_silent:
  "\<not> isSpeaking s \<Longrightarrow> no_can_play e \<Longrightarrow> e \<noteq> UtteranceStart \<Longrightarrow> \<not> isSpeaking (on_event e s)"
  by (cases e)
    (simp_all add: no_can_play_def reject_isSpeaking clearTimeout_isSpeaking Let_def)

lemma silent_without_can_play:
  "\<not> isSpeaking s \<Longrightarrow> list_all no_can_play es \<Longrightarrow> silent_until_start es s"
proof (induction es arbitrary: s)
  case Nil
  then show ?case by simp
next
  case (Cons e es)
  show ?case
  proof (cases "e = UtteranceStart")
    case True
    then show ?thesis using Cons.prems by simp
  next
    case False
    then have "\<not> isSpeaking (on_event e s)" using Cons.prems by (simp add: on_event_silent)
    then have "silent_until_start es (on_event e s)" using Cons.prems by (simp add: Cons.IH)
    then show ?thesis using Cons.prems by simp
  qed
qed

lemma speak_waits:
  assumes "audioSource s \<noteq> webspeech" "isSingleWord (trim P text)" "audioElement s"
  shows "speak P s text lang rate
      = s\<lparr>isSpeaking := False, audioSrc := Some (trim P text),
           calls := calls s @ [\<lparr> request = (text, lang, rate), settled = False, timerArmed = True \<rparr>]\<rparr>"
  using assms by (simp add: speak_def stop_def playDictionaryAudio_def)

lemma reject_waiting:
  assumes "k < length (calls s)" "\<not> settled (calls s ! k)"
  shows "settled (calls (reject s k message) ! k)
    \<and> length (calls (reject s k message)) = length (calls s)
    \<and> (\<forall>j. j \<noteq> k \<longrightarrow> calls (reject s k message) ! j = calls s ! j)
    \<and> console (reject s k message)
        = console s @ [''Dictionary audio failed, falling back to Web Speech API: '' @ message]
          @ (if audioSource s \<noteq> dictionary \<and> \<not> isSupported s
             then [''Speech synthesis is not supported in this browser''] else [])
    \<and> spoken (reject s k message)
        = (if audioSource s \<noteq> dictionary \<and> isSupported s
           then spoken s @ [request (calls s ! k)] else spoken s)"
  using assms by (simp add: reject_def caught_fields settle_def)

text \<open>
  C9 (where the code departs from it). A \<^verbatim>\<open>speak\<close> call with a single alphabetic token,
  a preference other than synthesis-only and an audio element waits for the dictionary
  audio with \<open>isSpeaking\<close> false, as the call numbered \<open>length (calls s)\<close>. When its attempt
  fails (load error, its timer, or a rejected \<^verbatim>\<open>play()\<close>) the promise is settled with a log
  entry, nothing is raised, and unless the preference is dictionary-only the fallback is
  called with the same text, language and rate. After a load error or the timer
  \<open>isSpeaking\<close> is false, and as long as no can-play event arrives it stays false until
  the utterance starts. After a rejected \<^verbatim>\<open>play()\<close> it is true already, before any
  utterance has started: the can-play handler has set it and the rejection does not
  take it back. The timer of an earlier call that still waits speaks that call's text.
\<close>

theorem speak_rejected_play_leaves_isSpeaking:
  assumes "audioSource s \<noteq> webspeech" "isSingleWord (trim P text)" "audioElement s"
  shows "calls (speak P s text lang rate)
       = calls s @ [\<lparr> request = (text, lang, rate), settled = False, timerArmed = True \<rparr>]
   \<and> \<not> isSpeaking (speak P s text lang rate)
   \<and> spoken (speak P s text lang rate) = spoken s
   \<and> audioSrc (speak P s text lang rate) = Some (trim P text)
   \<and> (attempt_fails (length (calls s)) e \<longrightarrow>
        settled (calls (on_event e (speak P s text lang rate)) ! length (calls s))
        \<and> (\<exists>message. console (on_event e (speak P s text lang rate))
              = console s @ [''Dictionary audio failed, falling back to Web Speech API: '' @ message]
                @ (if audioSource s \<noteq> dictionary \<and> \<not> isSupported s
                   then [''Speech synthesis is not supported in this browser''] else []))
        \<and> spoken (on_event e (speak P s text lang rate))
            = (if audioSource s \<noteq> dictionary \<and> isSupported s
               then spoken s @ [(text, lang, rate)] else spoken s)
        \<and> isSpeaking (on_event e (speak P s text lang rate)) = (e = CanPlayThrough False))
   \<and> (list_all no_can_play es \<longrightarrow> silent_until_start es (speak P s text lang rate))
   \<and> \<not> silent_until_start [CanPlayThrough False, UtteranceStart] (speak P s text lang rate)
   \<and> (j < length (calls s) \<and> timerArmed (calls s ! j) \<and> \<not> settled (calls s ! j) \<longrightarrow>
        spoken (on_event (TimerFired j) (speak P s text lang rate))
          = (if audioSource s \<noteq> dictionary \<and> isSupported s
             then spoken s @ [request (calls s ! j)] else spoken s)
        \<and> \<not> settled (calls (on_event (TimerFired j) (speak P s text lang rate)) ! length (calls s)))"
proof -
  let ?s1 = "speak P s text lang rate"
  let ?k = "length (calls s)"
  let ?new = "\<lparr> request = (text, lang, rate), settled = False, timerArmed = True \<rparr>"
  have s1: "?s1 = s\<lparr>isSpeaking := False, audioSrc := Some (trim P text), calls := calls s @ [?new]\<rparr>"
    using assms by (rule speak_waits)
  have a: "calls ?s1 = calls s @ [?new]" "\<not> isSpeaking ?s1" "spoken ?s1 = spoken s"
    "audioSrc ?s1 = Some (trim P text)" "console ?s1 = console s"
    "audioSource ?s1 = audioSource s" "isSupported ?s1 = isSupported s"
    by (simp_all add: s1)
  have k: "calls ?s1 \<noteq> []" "length (calls ?s1) - 1 = ?k" "?k < length (calls ?s1)"
    "calls ?s1 ! ?k = ?new"
    by (simp_all add: a(1))
  have rej: "settled (calls (reject x ?k message) ! ?k)
      \<and> console (reject x ?k message)
          = console s @ [''Dictionary audio failed, falling back to Web Speech API: '' @ message]
            @ (if audioSource s \<noteq> dictionary \<and> \<not> isSupported s
               then [''Speech synthesis is not supported in this browser''] else [])
      \<and> spoken (reject x ?k message)
          = (if audioSource s \<noteq> dictionary \<and> isSupported s
             then spoken s @ [(text, lang, rate)] else spoken s)
      \<and> isSpeaking (reject x ?k message) = isSpeaking x"
    if "?k < length (calls x)" "\<not> settled (calls x ! ?k)" "request (calls x ! ?k) = (text, lang, rate)"
      "console x = console s" "spoken x = spoken s" "audioSource x = audioSource s"
      "isSupported x = isSupported s"
    for x message
    using reject_waiting [OF that(1,2), of message] that(3-7) by (simp add: reject_isSpeaking)
  have fail: "settled (calls (on_event ev ?s1) ! ?k)
      \<and> (\<exists>message. console (on_event ev ?s1)
            = console s @ [''Dictionary audio failed, falling back to Web Speech API: '' @ message]
              @ (if audioSource s \<noteq> dictionary \<and> \<not> isSupported s
                 then [''Speech synthesis is not supported in this browser''] else []))
      \<and> spoken (on_event ev ?s1)
          = (if audioSource s \<noteq> dictionary \<and> isSupported s
             then spoken s @ [(text, lang, rate)] else spoken s)
      \<and> isSpeaking (on_event ev ?s1) = (ev = CanPlayThrough False)"
    if "attempt_fails ?k ev" for ev
  proof -
    from that consider "ev = AudioError" | "ev = TimerFired ?k" | "ev = CanPlayThrough False"
      unfolding attempt_fails_def by blast
    then show ?thesis
    proof cases
      case 1
      have e: "on_event ev ?s1 = reject (?s1\<lparr>isSpeaking := False\<rparr>) ?k ''Failed to load dictionary audio''"
        unfolding 1 using k by (simp add: Let_def)
      show ?thesis unfolding e
        using rej [of "?s1\<lparr>isSpeaking := False\<rparr>" "''Failed to load dictionary audio''"] a k 1
        by auto
    next
      case 2
      have e: "on_event ev ?s1 = reject (clearTimeout ?s1 ?k) ?k ''Dictionary audio load timeout''"
        unfolding 2 using k by simp
      show ?thesis unfolding e
        using rej [of "clearTimeout ?s1 ?k" "''Dictionary audio load timeout''"] a k 2
        by (auto simp: clearTimeout_def)
    next
      case 3
      have e: "on_event ev ?s1 = reject ((clearTimeout ?s1 ?k)\<lparr>isSpeaking := True\<rparr>) ?k ''play() failed''"
        unfolding 3 using k by (simp add: Let_def)
      show ?thesis unfolding e
        using rej [of "(clearTimeout ?s1 ?k)\<lparr>isSpeaking := True\<rparr>" "''play() failed''"] a k 3
        by (auto simp: clearTimeout_def)
    qed
  qed
  have quiet: "silent_until_start es ?s1" if "list_all no_can_play es"
    using a(2) that by (rule silent_without_can_play)
  have "attempt_fails ?k (CanPlayThrough False)" by (simp add: attempt_fails_def)
  from fail [OF this] have "isSpeaking (on_event (CanPlayThrough False) ?s1)" by simp
  then have loud: "\<not> silent_until_start [CanPlayThrough False, UtteranceStart] ?s1"
    by (simp del: on_event.simps)
  have earlier: "spoken (on_event (TimerFired j) ?s1)
        = (if audioSource s \<noteq> dictionary \<and> isSupported s
           then spoken s @ [request (calls s ! j)] else spoken s)
      \<and> \<not> settled (calls (on_event (TimerFired j) ?s1) ! ?k)"
    if "j < length (calls s)" "timerArmed (calls s ! j)" "\<not> settled (calls s ! j)"
  proof -
    let ?x = "clearTimeout ?s1 j"
    have j: "j < length (calls ?s1)" "calls ?s1 ! j = calls s ! j" "j \<noteq> ?k"
      using that(1) by (simp_all add: a(1) nth_append)
    have e: "on_event (TimerFired j) ?s1 = reject ?x j ''Dictionary audio load timeout''"
      using j that by simp
    have x: "j < length (calls ?x)" "\<not> settled (calls ?x ! j)" "request (calls ?x ! j) = request (calls s ! j)"
      "calls ?x ! ?k = ?new" "spoken ?x = spoken s" "audioSource ?x = audioSource s"
      "isSupported ?x = isSupported s"
      using j that a k by (simp_all add: clearTimeout_def)
    from reject_waiting [OF x(1,2), of "''Dictionary audio load timeout''"] x(3-7) j(3)
    show ?thesis unfolding e by simp
  qed
  show ?thesis using a(1-4) fail quiet loud earlier by blast
qed

theorem speak_rejected_play_leaves_isSpeaking_witness:
  "isSpeaking (on_event (CanPlayThrough False)
       (speak ascii_strings (idle_service dictionary) ''apple'' ''en-US'' (7 / 10)))
   \<and> spoken (on_event (CanPlayThrough False)
       (speak ascii_strings (idle_service dictionary) ''apple'' ''en-US'' (7 / 10))) = []
   \<and> isSpeaking (on_event (CanPlayThrough False)
       (speak ascii_strings (idle_service hybrid) ''apple'' ''en-US'' (7 / 10)))
   \<and> spoken (on_event (CanPlayThrough False)
       (speak ascii_strings (idle_service hybrid) ''apple'' ''en-US'' (7 / 10)))
       = [(''apple'', ''en-US'', 7 / 10)]
   \<and> \<not> silent_until_start [CanPlayThrough False, UtteranceStart]
       (speak ascii_strings (idle_service hybrid) ''apple'' ''en-US'' (7 / 10))
   \<and> \<not> isSpeaking (on_event (TimerFired 0)
       (speak ascii_strings (idle_service hybrid) ''apple'' ''en-US'' (7 / 10)))
   \<and> spoken (on_event (TimerFired 0)
       (speak ascii_strings
         (speak ascii_strings (idle_service hybrid) ''apple'' ''en-US'' (7 / 10))
         ''bread'' ''en-US'' (7 / 10)))
       = [(''apple'', ''en-US'', 7 / 10)]"
proof -
  have pre: "audioSource (idle_service hybrid) \<noteq> webspeech"
    "audioSource (idle_service dictionary) \<noteq> webspeech"
    "audioElement (idle_service hybrid)" "audioElement (idle_service dictionary)"
    by (simp_all add: idle_service_def)
  have st: "isSupported (idle_service hybrid)" "spoken (idle_service hybrid) = []"
    "spoken (idle_service dictionary) = []" "audioSource (idle_service hybrid) = hybrid"
    "audioSource (idle_service dictionary) = dictionary"
    "calls (idle_service hybrid) = []" "calls (idle_service dictionary) = []"
    by (simp_all add: idle_service_def)
  have word: "isSingleWord (trim ascii_strings ''apple'')" "isSingleWord (trim ascii_strings ''bread'')"
    by code_simp+
  have ev: "attempt_fails 0 (CanPlayThrough False)" "attempt_fails 0 (TimerFired 0)"
    by (simp_all add: attempt_fails_def)
  note h = speak_rejected_play_leaves_isSpeaking [OF pre(1) word(1) pre(3),
      where lang = "''en-US''" and rate = "7 / 10"]
  note d = speak_rejected_play_leaves_isSpeaking [OF pre(2) word(1) pre(4),
      where e = "CanPlayThrough False" and lang = "''en-US''" and rate = "7 / 10"]
  let ?a = "speak ascii_strings (idle_service hybrid) ''apple'' ''en-US'' (7 / 10)"
  from d ev st have 1: "isSpeaking (on_event (CanPlayThrough False)
        (speak ascii_strings (idle_service dictionary) ''apple'' ''en-US'' (7 / 10)))
      \<and> spoken (on_event (CanPlayThrough False)
        (speak ascii_strings (idle_service dictionary) ''apple'' ''en-US'' (7 / 10))) = []"
    by (simp del: on_event.simps silent_until_start.simps)
  from h [where e = "CanPlayThrough False"] ev st have 2: "isSpeaking (on_event (CanPlayThrough False) ?a)
      \<and> spoken (on_event (CanPlayThrough False) ?a) = [(''apple'', ''en-US'', 7 / 10)]
      \<and> \<not> silent_until_start [CanPlayThrough False, UtteranceStart] ?a"
    by (simp del: on_event.simps silent_until_start.simps)
  from h [where e = "TimerFired 0"] ev st have 3: "\<not> isSpeaking (on_event (TimerFired 0) ?a)"
    by (simp del: on_event.simps silent_until_start.simps)
  have a: "audioSource ?a \<noteq> webspeech" "audioElement ?a" "audioSource ?a = hybrid" "isSupported ?a"
    "spoken ?a = []"
    "calls ?a = [\<lparr> request = (''apple'', ''en-US'', 7 / 10), settled = False, timerArmed = True \<rparr>]"
    using word(1) by (simp_all add: speak_waits idle_service_def)
  from speak_rejected_play_leaves_isSpeaking [OF a(1) word(2) a(2),
      where j = 0 and lang = "''en-US''" and rate = "7 / 10"] a
  have 4: "spoken (on_event (TimerFired 0) (speak ascii_strings ?a ''bread'' ''en-US'' (7 / 10)))
      = [(''apple'', ''en-US'', 7 / 10)]"
    by (simp del: on_event.simps silent_until_start.simps)
  show ?thesis using 1 2 3 4 by blast
qed

end
